theory Spec2Isabelle
  imports Complex_Main "HOL-Library.Monad_Syntax"
begin

section \<open>JavaScript values reaching the analyze route\<close>

text \<open>
  The route handler \<open>POST\<close> of \<open>src/app/api/analyze/route.ts\<close> (the version with the
  three phases: per-item analysis, category synthesis, assembly) works on values that
  come out of \<open>JSON.parse\<close>. They are modelled by the datatype \<open>json\<close>; the JavaScript
  value \<open>undefined\<close> (a missing property) is \<open>None\<close> of an option.

  Strings are lists of code units. The model covers the code units 0 to 255; on that
  universe \<open>trim\<close>, \<open>toLowerCase\<close> and the regular expressions of the handler are exact.
  A number is the exact rational its decimal literal denotes: the rounding of IEEE
  doubles, and their overflow to \<open>Infinity\<close>, is left out (the two agree on every
  literal a double represents exactly).
  An object is the list of its own properties in the order \<open>Object.entries\<close>
  enumerates them.
\<close>

datatype json =
    JNull
  | JBool bool
  | JNum rat
  | JStr string
  | JArr "json list"
  | JObj "(string \<times> json) list"

text \<open>The result of \<open>Number(v)\<close>.\<close>

datatype number = NaN | Fin rat | PosInf | NegInf

subsection \<open>Characters and strings\<close>

definition is_digit :: "char \<Rightarrow> bool" where
  "is_digit c = (48 \<le> (of_char c :: nat) \<and> (of_char c :: nat) \<le> 57)"

definition digit_val :: "char \<Rightarrow> int" where
  "digit_val c = of_char c - 48"

definition digits_val :: "string \<Rightarrow> int" where
  "digits_val ds = foldl (\<lambda>n c. 10 * n + digit_val c) 0 ds"

text \<open>Value of a hexadecimal digit, \<open>None\<close> for any other character.\<close>

definition hex_val :: "char \<Rightarrow> int option" where
  "hex_val c =
     (let n = (of_char c :: int) in
      if 48 \<le> n \<and> n \<le> 57 then Some (n - 48)
      else if 65 \<le> n \<and> n \<le> 70 then Some (n - 55)
      else if 97 \<le> n \<and> n \<le> 102 then Some (n - 87)
      else None)"

fun radix_val :: "int \<Rightarrow> int \<Rightarrow> string \<Rightarrow> int option" where
  "radix_val b acc [] = Some acc"
| "radix_val b acc (c # cs) =
     (case hex_val c of
        None \<Rightarrow> None
      | Some d \<Rightarrow> if d < b then radix_val b (b * acc + d) cs else None)"

text \<open>
  \<open>WhiteSpace\<close> and \<open>LineTerminator\<close> of ECMAScript below code unit 256: TAB, LF, VT,
  FF, CR, SP and NBSP. This is the class \<open>\s\<close> of a regular expression and what
  \<open>String.prototype.trim\<close> removes.
\<close>

definition js_space :: "char \<Rightarrow> bool" where
  "js_space c = ((of_char c :: nat) \<in> {9, 10, 11, 12, 13, 32, 160})"

definition trim :: "string \<Rightarrow> string" where
  "trim s = rev (dropWhile js_space (rev (dropWhile js_space s)))"

text \<open>\<open>String.prototype.toLowerCase\<close>: A-Z and the upper-case letters of Latin-1.\<close>

definition lower_char :: "char \<Rightarrow> char" where
  "lower_char c =
     (let n = (of_char c :: nat) in
      if (65 \<le> n \<and> n \<le> 90) \<or> (192 \<le> n \<and> n \<le> 222 \<and> n \<noteq> 215)
      then char_of (n + 32) else c)"

definition toLowerCase :: "string \<Rightarrow> string" where
  "toLowerCase s = map lower_char s"

definition startsWith :: "string \<Rightarrow> string \<Rightarrow> bool" where
  "startsWith s p = (take (length p) s = p)"

definition endsWith :: "string \<Rightarrow> string \<Rightarrow> bool" where
  "endsWith s p = (length p \<le> length s \<and> drop (length s - length p) s = p)"

text \<open>\<open>s.includes(p)\<close> on strings: \<open>p\<close> occurs in \<open>s\<close> as a substring.\<close>

fun str_includes :: "string \<Rightarrow> string \<Rightarrow> bool" where
  "str_includes [] p = (p = [])"
| "str_includes (c # cs) p = (startsWith (c # cs) p \<or> str_includes cs p)"

text \<open>\<open>s.replace(/\s+/g, '_')\<close>: every maximal run of white space becomes one underscore.\<close>

function underscore_spaces :: "string \<Rightarrow> string" where
  "underscore_spaces [] = []"
| "underscore_spaces (c # cs) =
     (if js_space c then CHR ''_'' # underscore_spaces (dropWhile js_space cs)
      else c # underscore_spaces cs)"
  by pat_completeness auto
termination
  by (relation "measure length") (auto simp: less_Suc_eq_le length_dropWhile_le)

text \<open>Decimal digits of a natural number, as template literals and \<open>String\<close> print it.\<close>

fun show_nat :: "nat \<Rightarrow> string" where
  "show_nat n =
     (if n < 10 then [char_of (48 + n)]
      else show_nat (n div 10) @ [char_of (48 + n mod 10)])"

declare show_nat.simps [simp del]

text \<open>
  Digits after the decimal point of a fraction \<open>0 \<le> f < 1\<close>, at most \<open>k\<close> of them.
\<close>

fun frac_digits :: "nat \<Rightarrow> rat \<Rightarrow> string" where
  "frac_digits 0 f = []"
| "frac_digits (Suc k) f =
     (if f = 0 then []
      else (let d = nat \<lfloor>f * 10\<rfloor> in char_of (48 + d) # frac_digits k (f * 10 - of_nat d)))"

text \<open>
  \<open>Number.prototype.toString\<close> in plain decimal notation. JavaScript prints this form for
  magnitudes from \<open>1e-6\<close> up to \<open>1e21\<close>; the exponent notation used outside that range is
  not modelled.
\<close>

definition Number_toString :: "rat \<Rightarrow> string" where
  "Number_toString r =
     (let a = \<bar>r\<bar>; ip = nat \<lfloor>a\<rfloor>; f = a - of_nat ip
      in (if r < 0 then ''-'' else '''') @ show_nat ip
         @ (if f = 0 then '''' else ''.'' @ frac_digits 20 f))"

subsection \<open>Objects in property order\<close>

text \<open>
  An array index is the canonical decimal form of an integer below \<open>2^32 - 1\<close>. An
  ordinary object enumerates its array-index keys first, in ascending order, then its
  other string keys in the order they were created. Two canonical forms compare as
  their numbers do: by length, then digit by digit.
\<close>

fun digits_less :: "string \<Rightarrow> string \<Rightarrow> bool" where
  "digits_less (a # as) (b # bs) =
     ((of_char a :: nat) < of_char b \<or> (a = b \<and> digits_less as bs))"
| "digits_less as bs = False"

definition index_less :: "string \<Rightarrow> string \<Rightarrow> bool" where
  "index_less j k = (length j < length k \<or> (length j = length k \<and> digits_less j k))"

definition is_array_index :: "string \<Rightarrow> bool" where
  "is_array_index k =
     (k \<noteq> [] \<and> list_all is_digit k \<and> (k = ''0'' \<or> hd k \<noteq> CHR ''0'')
        \<and> \<not> index_less ''4294967294'' k)"

text \<open>The place of a new array-index key \<open>k\<close>: behind the smaller array-index keys.\<close>

fun insert_index :: "string \<Rightarrow> json \<Rightarrow> (string \<times> json) list \<Rightarrow> (string \<times> json) list" where
  "insert_index k v [] = [(k, v)]"
| "insert_index k v ((k', v') # ps) =
     (if is_array_index k' \<and> index_less k' k then (k', v') # insert_index k v ps
      else (k, v) # (k', v') # ps)"

text \<open>
  \<open>CreateDataProperty\<close>, as \<open>JSON.parse\<close> uses it for each member: an existing key keeps
  its place and takes the new value, a new key is added at its place in the order.
\<close>

definition obj_define :: "(string \<times> json) list \<Rightarrow> string \<Rightarrow> json \<Rightarrow> (string \<times> json) list" where
  "obj_define ps k v =
     (if k \<in> fst ` set ps then map (\<lambda>(k', v'). if k' = k then (k', v) else (k', v')) ps
      else if is_array_index k then insert_index k v ps
      else ps @ [(k, v)])"

text \<open>
  The assignment \<open>acc[k] = v\<close> on an object created by the literal \<open>{}\<close>, with \<open>v\<close> an
  object. The key \<open>__proto__\<close> is an accessor inherited from \<open>Object.prototype\<close>: assigning
  to it replaces the prototype of \<open>acc\<close> and creates no own property. Every other key
  is created or overwritten as an own property.
\<close>

definition obj_assign :: "(string \<times> json) list \<Rightarrow> string \<Rightarrow> json \<Rightarrow> (string \<times> json) list" where
  "obj_assign ps k v = (if k = ''__proto__'' then ps else obj_define ps k v)"

subsection \<open>\<open>JSON.parse\<close>\<close>

definition json_ws :: "char \<Rightarrow> bool" where
  "json_ws c = ((of_char c :: nat) \<in> {9, 10, 13, 32})"

definition skip_ws :: "string \<Rightarrow> string" where
  "skip_ws cs = dropWhile json_ws cs"

definition unescape :: "char \<Rightarrow> char option" where
  "unescape e =
     (if e = CHR 0x22 then Some (CHR 0x22)
      else if e = CHR 0x5C then Some (CHR 0x5C)
      else if e = CHR ''/'' then Some (CHR ''/'')
      else if e = CHR ''b'' then Some (CHR 0x08)
      else if e = CHR ''f'' then Some (CHR 0x0C)
      else if e = CHR ''n'' then Some (CHR 0x0A)
      else if e = CHR ''r'' then Some (CHR 0x0D)
      else if e = CHR ''t'' then Some (CHR 0x09)
      else None)"

definition cons_char :: "char \<Rightarrow> (string \<times> string) option \<Rightarrow> (string \<times> string) option" where
  "cons_char x r = map_option (\<lambda>(s, rest). (x # s, rest)) r"

text \<open>
  The characters of a string literal after its opening quote, up to the closing quote:
  the decoded string and the rest of the input. An escape \<open>\uXXXX\<close> above \<open>00FF\<close> denotes
  a code unit outside the universe of the model and is reduced modulo 256.
\<close>

function json_chars :: "string \<Rightarrow> (string \<times> string) option" where
  "json_chars [] = None"
| "json_chars (c # cs) =
     (if c = CHR 0x22 then Some ([], cs)
      else if c = CHR 0x5C then
        (case cs of
           [] \<Rightarrow> None
         | e # r \<Rightarrow>
             if e = CHR ''u'' then
               (if length r < 4 then None
                else (case radix_val 16 0 (take 4 r) of
                        None \<Rightarrow> None
                      | Some n \<Rightarrow> cons_char (char_of n) (json_chars (drop 4 r))))
             else (case unescape e of
                     None \<Rightarrow> None
                   | Some x \<Rightarrow> cons_char x (json_chars r)))
      else if (of_char c :: nat) < 32 then None
      else cons_char c (json_chars cs))"
  by pat_completeness auto
termination
  by (relation "measure length") auto

definition decimal_value :: "string \<Rightarrow> string \<Rightarrow> int \<Rightarrow> rat" where
  "decimal_value ip fp e =
     (of_int (digits_val ip) + of_int (digits_val fp) / 10 ^ length fp)
       * (if 0 \<le> e then 10 ^ nat e else 1 / 10 ^ nat (- e))"

text \<open>An optional sign: whether it is a minus, and the rest.\<close>

fun opt_sign :: "string \<Rightarrow> bool \<times> string" where
  "opt_sign [] = (False, [])"
| "opt_sign (c # cs) =
     (if c = CHR ''-'' then (True, cs)
      else if c = CHR ''+'' then (False, cs)
      else (False, c # cs))"

text \<open>
  An optional exponent part: \<open>Some (0, cs)\<close> when \<open>cs\<close> does not start with \<open>e\<close> or \<open>E\<close>,
  \<open>None\<close> when it does and no digit follows the optional sign.
\<close>

fun scan_exp :: "string \<Rightarrow> (int \<times> string) option" where
  "scan_exp [] = Some (0, [])"
| "scan_exp (c # cs) =
     (if c = CHR ''e'' \<or> c = CHR ''E'' then
        (case opt_sign cs of
           (neg, u) \<Rightarrow>
             (let ds = takeWhile is_digit u
              in if ds = [] then None
                 else Some ((if neg then - digits_val ds else digits_val ds),
                            dropWhile is_digit u)))
      else Some (0, c # cs))"

text \<open>The integer part of a JSON number: \<open>0\<close>, or digits that do not start with \<open>0\<close>.\<close>

fun int_part :: "string \<Rightarrow> (string \<times> string) option" where
  "int_part [] = None"
| "int_part (c # cs) =
     (if c = CHR ''0'' then Some (''0'', cs)
      else if is_digit c then Some (c # takeWhile is_digit cs, dropWhile is_digit cs)
      else None)"

text \<open>The optional fraction of a JSON number: a point needs a digit behind it.\<close>

fun frac_part :: "string \<Rightarrow> (string \<times> string) option" where
  "frac_part [] = Some ([], [])"
| "frac_part (c # cs) =
     (if c = CHR ''.'' then
        (if takeWhile is_digit cs = [] then None
         else Some (takeWhile is_digit cs, dropWhile is_digit cs))
      else Some ([], c # cs))"

text \<open>A JSON number: \<open>-? (0 | [1-9][0-9]*) (. [0-9]+)? ([eE] [+-]? [0-9]+)?\<close>.\<close>

definition json_number :: "string \<Rightarrow> (rat \<times> string) option" where
  "json_number cs =
     (let neg = (cs \<noteq> [] \<and> hd cs = CHR ''-'') in
      case int_part (if neg then tl cs else cs) of
        None \<Rightarrow> None
      | Some (ip, cs2) \<Rightarrow>
          (case frac_part cs2 of
             None \<Rightarrow> None
           | Some (fp, cs3) \<Rightarrow>
               (case scan_exp cs3 of
                  None \<Rightarrow> None
                | Some (e, r) \<Rightarrow>
                    Some ((if neg then - 1 else 1) * decimal_value ip fp e, r))))"

text \<open>
  A value that is not an object or an array: a string, \<open>true\<close>, \<open>false\<close>, \<open>null\<close> or a
  number. The text starts at its first character.
\<close>

definition parse_scalar :: "string \<Rightarrow> (json \<times> string) option" where
  "parse_scalar cs =
     (if startsWith cs [CHR 0x22] then map_option (\<lambda>(s, rest). (JStr s, rest)) (json_chars (tl cs))
      else if startsWith cs ''true'' then Some (JBool True, drop 4 cs)
      else if startsWith cs ''false'' then Some (JBool False, drop 5 cs)
      else if startsWith cs ''null'' then Some (JNull, drop 4 cs)
      else map_option (\<lambda>(x, rest). (JNum x, rest)) (json_number cs))"

text \<open>
  Recursive descent over the text. The first argument bounds the number of nested calls;
  every call consumes a character before the next one, so \<open>JSON_parse\<close> starts with one
  more than the length of the text (\<open>JSON_parse_fuel\<close> below: no larger bound parses
  more). \<open>parse_elements\<close> runs after \<open>[\<close> and \<open>parse_members\<close> after \<open>{\<close>, each with the
  values read so far.
\<close>

fun parse_value :: "nat \<Rightarrow> string \<Rightarrow> (json \<times> string) option"
  and parse_elements :: "nat \<Rightarrow> json list \<Rightarrow> string \<Rightarrow> (json \<times> string) option"
  and parse_members :: "nat \<Rightarrow> (string \<times> json) list \<Rightarrow> string \<Rightarrow> (json \<times> string) option"
where
  "parse_value 0 cs = None"
| "parse_value (Suc f) cs =
     (case skip_ws cs of
        [] \<Rightarrow> None
      | c # r \<Rightarrow>
          if c = CHR ''{'' then
            (case skip_ws r of
               [] \<Rightarrow> None
             | c' # r' \<Rightarrow> if c' = CHR ''}'' then Some (JObj [], r') else parse_members f [] r)
          else if c = CHR ''['' then
            (case skip_ws r of
               [] \<Rightarrow> None
             | c' # r' \<Rightarrow> if c' = CHR '']'' then Some (JArr [], r') else parse_elements f [] r)
          else parse_scalar (c # r))"
| "parse_elements 0 acc cs = None"
| "parse_elements (Suc f) acc cs =
     (case parse_value f cs of
        None \<Rightarrow> None
      | Some (v, r) \<Rightarrow>
          (case skip_ws r of
             [] \<Rightarrow> None
           | c # r' \<Rightarrow>
               if c = CHR '','' then parse_elements f (acc @ [v]) r'
               else if c = CHR '']'' then Some (JArr (acc @ [v]), r')
               else None))"
| "parse_members 0 acc cs = None"
| "parse_members (Suc f) acc cs =
     (case skip_ws cs of
        [] \<Rightarrow> None
      | q # r \<Rightarrow>
          if q \<noteq> CHR 0x22 then None
          else
            (case json_chars r of
               None \<Rightarrow> None
             | Some (k, r1) \<Rightarrow>
                 (case skip_ws r1 of
                    [] \<Rightarrow> None
                  | c1 # r2 \<Rightarrow>
                      if c1 \<noteq> CHR '':'' then None
                      else
                        (case parse_value f r2 of
                           None \<Rightarrow> None
                         | Some (v, r3) \<Rightarrow>
                             (case skip_ws r3 of
                                [] \<Rightarrow> None
                              | c3 # r4 \<Rightarrow>
                                  if c3 = CHR '','' then parse_members f (obj_define acc k v) r4
                                  else if c3 = CHR ''}'' then Some (JObj (obj_define acc k v), r4)
                                  else None)))))"

text \<open>\<open>JSON.parse(text)\<close>: \<open>None\<close> stands for the \<open>SyntaxError\<close> it throws.\<close>

definition JSON_parse :: "string \<Rightarrow> json option" where
  "JSON_parse text =
     (case parse_value (Suc (length text)) text of
        None \<Rightarrow> None
      | Some (v, r) \<Rightarrow> if skip_ws r = [] then Some v else None)"

subsection \<open>Conversions of the language\<close>

text \<open>\<open>ToBoolean\<close>, as \<open>||\<close>, \<open>&&\<close>, \<open>!\<close> and \<open>?:\<close> apply it.\<close>

fun truthy :: "json \<Rightarrow> bool" where
  "truthy JNull = False"
| "truthy (JBool b) = b"
| "truthy (JNum r) = (r \<noteq> 0)"
| "truthy (JStr s) = (s \<noteq> [])"
| "truthy (JArr xs) = True"
| "truthy (JObj ps) = True"

text \<open>\<open>x || d\<close> where \<open>x\<close> may be \<open>undefined\<close>.\<close>

definition or_else :: "json option \<Rightarrow> json \<Rightarrow> json" where
  "or_else x d = (case x of None \<Rightarrow> d | Some v \<Rightarrow> if truthy v then v else d)"

text \<open>
  The property read \<open>v.k\<close> for the keys the handler reads (\<open>content\<close>, \<open>extracted_text\<close>,
  \<open>main_theme\<close>, \<open>confidence\<close>, \<open>categories\<close>, \<open>images\<close>, \<open>userPrompt\<close>), none of which is
  a property of a prototype. The outer \<open>None\<close> is the \<open>TypeError\<close> of reading a property
  of \<open>null\<close>; \<open>Some None\<close> is \<open>undefined\<close>.
\<close>

fun js_get :: "json \<Rightarrow> string \<Rightarrow> json option option" where
  "js_get JNull k = None"
| "js_get (JObj ps) k = Some (map_of ps k)"
| "js_get v k = Some None"

text \<open>
  \<open>String(v)\<close>; \<open>None\<close> is the \<open>TypeError\<close> "Cannot convert object to primitive value".
  An object out of \<open>JSON.parse\<close> prints as \<open>[object Object]\<close> unless it has an own property
  \<open>toString\<close>: that property is not callable, and the inherited \<open>valueOf\<close> returns the
  object itself, so the conversion throws. An array prints as \<open>join(",")\<close> of its
  elements, \<open>null\<close> elements as the empty string.
\<close>

fun js_String :: "json \<Rightarrow> string option"
  and join :: "json list \<Rightarrow> string option"
where
  "js_String JNull = Some ''null''"
| "js_String (JBool b) = Some (if b then ''true'' else ''false'')"
| "js_String (JNum r) = Some (Number_toString r)"
| "js_String (JStr s) = Some s"
| "js_String (JArr xs) = join xs"
| "js_String (JObj ps) =
     (if ''toString'' \<in> fst ` set ps then None else Some ''[object Object]'')"
| "join [] = Some []"
| "join (x # xs) =
     (case (if x = JNull then Some [] else js_String x) of
        None \<Rightarrow> None
      | Some a \<Rightarrow>
          if xs = [] then Some a
          else (case join xs of None \<Rightarrow> None | Some b \<Rightarrow> Some (a @ '','' @ b)))"

fun negate :: "number \<Rightarrow> number" where
  "negate NaN = NaN"
| "negate (Fin r) = Fin (- r)"
| "negate PosInf = NegInf"
| "negate NegInf = PosInf"

text \<open>The digits behind an optional point (there may be none), and the rest.\<close>

fun point_digits :: "string \<Rightarrow> string \<times> string" where
  "point_digits [] = ([], [])"
| "point_digits (c # cs) =
     (if c = CHR ''.'' then (takeWhile is_digit cs, dropWhile is_digit cs)
      else ([], c # cs))"

text \<open>
  \<open>StrUnsignedDecimalLiteral\<close>, matched against the whole string: \<open>Infinity\<close>, or digits
  with an optional point and an optional exponent, with a digit before or behind the
  point.
\<close>

definition unsigned_decimal :: "string \<Rightarrow> number" where
  "unsigned_decimal s =
     (if s = ''Infinity'' then PosInf
      else
        (let ip = takeWhile is_digit s in
         case point_digits (dropWhile is_digit s) of
           (fp, r2) \<Rightarrow>
             if ip = [] \<and> fp = [] then NaN
             else (case scan_exp r2 of
                     None \<Rightarrow> NaN
                   | Some (e, rest) \<Rightarrow>
                       if rest = [] then Fin (decimal_value ip fp e) else NaN)))"

definition non_decimal :: "int \<Rightarrow> string \<Rightarrow> number" where
  "non_decimal b ds =
     (if ds = [] then NaN
      else (case radix_val b 0 ds of None \<Rightarrow> NaN | Some n \<Rightarrow> Fin (of_int n)))"

text \<open>
  \<open>StringToNumber\<close>: white space is trimmed, the empty string is 0, then a signed decimal
  literal or an unsigned literal with prefix \<open>0x\<close>, \<open>0o\<close> or \<open>0b\<close>; anything else is \<open>NaN\<close>.
\<close>

definition StringToNumber :: "string \<Rightarrow> number" where
  "StringToNumber s =
     (let t = trim s in
      if t = [] then Fin 0
      else if startsWith t ''0x'' \<or> startsWith t ''0X'' then non_decimal 16 (drop 2 t)
      else if startsWith t ''0o'' \<or> startsWith t ''0O'' then non_decimal 8 (drop 2 t)
      else if startsWith t ''0b'' \<or> startsWith t ''0B'' then non_decimal 2 (drop 2 t)
      else if hd t = CHR ''+'' then unsigned_decimal (tl t)
      else if hd t = CHR ''-'' then negate (unsigned_decimal (tl t))
      else unsigned_decimal t)"

text \<open>
  \<open>Number(v)\<close> where \<open>v\<close> may be \<open>undefined\<close>; \<open>None\<close> is the \<open>TypeError\<close> of an object that
  cannot be converted to a primitive.
\<close>

fun Number :: "json option \<Rightarrow> number option" where
  "Number None = Some NaN"
| "Number (Some JNull) = Some (Fin 0)"
| "Number (Some (JBool b)) = Some (Fin (if b then 1 else 0))"
| "Number (Some (JNum r)) = Some (Fin r)"
| "Number (Some (JStr s)) = Some (StringToNumber s)"
| "Number (Some (JArr xs)) = map_option StringToNumber (join xs)"
| "Number (Some (JObj ps)) = map_option StringToNumber (js_String (JObj ps))"

text \<open>\<open>n || 50\<close> on a number: 0 and \<open>NaN\<close> are falsy.\<close>

definition or_50 :: "number \<Rightarrow> number" where
  "or_50 n = (if n = NaN \<or> n = Fin 0 then Fin 50 else n)"

text \<open>\<open>Math.min(100, Math.max(0, n))\<close> for \<open>n\<close> other than \<open>NaN\<close>.\<close>

fun clamp :: "number \<Rightarrow> rat" where
  "clamp (Fin r) = min 100 (max 0 r)"
| "clamp PosInf = 100"
| "clamp NegInf = 0"
| "clamp NaN = 0"

section \<open>The request and its items\<close>

text \<open>
  A \<open>File\<close> of the form data: its declared type and its name (its bytes only travel to
  the codec and to the inference service).
\<close>

record File =
  file_type :: string
  file_name :: string

text \<open>An entry of the form data is a file or a string.\<close>

datatype form_entry = FilePart File | TextPart string

text \<open>
  The request as the handler reads it: the entries under \<open>files\<close> and under \<open>images\<close> of a
  multipart body, or the value of a JSON body; \<open>Unreadable\<close> is a body on which
  \<open>request.formData()\<close> or \<open>request.json()\<close> throws. The \<open>userPrompt\<close> entry of a
  multipart body is a string or a file; it is only printed into the prompts, which
  cannot fail, so the model leaves it out.
\<close>

datatype request =
    Multipart "form_entry list" "form_entry list"
  | JsonBody json
  | Unreadable

text \<open>
  The \<open>data\<close> of an item: the data URL \<open>processFile\<close> builds for an uploaded file, or
  the value found under \<open>images\<close> (any JSON value in a JSON body, a string or a file in
  form data).
\<close>

datatype item_data = DataUrlOf File | Given json | GivenFile File

record item =
  data :: item_data
  name :: "string option"

fun is_string :: "item_data \<Rightarrow> bool" where
  "is_string (DataUrlOf f) = True"
| "is_string (Given (JStr s)) = True"
| "is_string (Given v) = False"
| "is_string (GivenFile f) = False"

text \<open>The test of the loop over \<open>files\<close>.\<close>

definition is_image :: "File \<Rightarrow> bool" where
  "is_image f =
     (startsWith (file_type f) ''image/'' \<or> endsWith (toLowerCase (file_name f)) ''.heic'')"

text \<open>
  The loop over \<open>files\<close>. A string under \<open>files\<close> has no \<open>type\<close>: \<open>file.type.startsWith\<close>
  throws a \<open>TypeError\<close> (\<open>None\<close>).
\<close>

fun file_items :: "form_entry list \<Rightarrow> item list option" where
  "file_items [] = Some []"
| "file_items (TextPart s # es) = None"
| "file_items (FilePart f # es) =
     (case file_items es of
        None \<Rightarrow> None
      | Some its \<Rightarrow>
          Some (if is_image f then \<lparr>data = DataUrlOf f, name = Some (file_name f)\<rparr> # its
                else its))"

fun entry_item :: "form_entry \<Rightarrow> item" where
  "entry_item (TextPart s) = \<lparr>data = Given (JStr s), name = None\<rparr>"
| "entry_item (FilePart f) = \<lparr>data = GivenFile f, name = None\<rparr>"

text \<open>
  \<open>body.images || []\<close> followed by \<open>forEach\<close>: only an array has \<open>forEach\<close>, any other
  truthy value throws a \<open>TypeError\<close>.
\<close>

definition body_items :: "json \<Rightarrow> item list option" where
  "body_items body =
     (case js_get body ''images'' of
        None \<Rightarrow> None
      | Some x \<Rightarrow>
          (case or_else x (JArr []) of
             JArr xs \<Rightarrow> Some (map (\<lambda>v. \<lparr>data = Given v, name = None\<rparr>) xs)
           | _ \<Rightarrow> None))"

text \<open>
  Ingestion: \<open>allItems\<close> and \<open>userPrompt\<close>, or \<open>None\<close> when an exception reaches the outer
  \<open>catch\<close> of the handler.
\<close>

fun ingest :: "request \<Rightarrow> (item list \<times> json option) option" where
  "ingest (Multipart files images) =
     (case file_items files of
        None \<Rightarrow> None
      | Some its \<Rightarrow> Some (its @ map entry_item images, None))"
| "ingest (JsonBody body) =
     (case body_items body of
        None \<Rightarrow> None
      | Some its \<Rightarrow> (case js_get body ''userPrompt'' of None \<Rightarrow> None | Some p \<Rightarrow> Some (its, p)))"
| "ingest Unreadable = None"

section \<open>Phase 1: the analysis of one item\<close>

text \<open>
  The inference service is outside the program. One call to \<open>generateContent\<close> either
  throws or returns a response whose \<open>text\<close> is a string or \<open>undefined\<close>. The handler
  takes the reply of the call for item \<open>index\<close> and the reply of the one categorization
  call as given; the prompts and the image payload only travel to the service.
\<close>

datatype reply = Throws | Returns "string option"

text \<open>\<open>result.text?.trim() || ''\<close>.\<close>

definition response_text :: "string option \<Rightarrow> string" where
  "response_text t = (case t of None \<Rightarrow> [] | Some s \<Rightarrow> trim s)"

definition opt_newline :: "string \<Rightarrow> string" where
  "opt_newline cs = (if cs \<noteq> [] \<and> hd cs = CHR 0x0A then tl cs else cs)"

text \<open>\<open>s.replace(/p\n?/g, '')\<close> for a literal \<open>p\<close>.\<close>

function remove_all :: "string \<Rightarrow> string \<Rightarrow> string" where
  "remove_all p [] = []"
| "remove_all p (c # cs) =
     (if p \<noteq> [] \<and> startsWith (c # cs) p
      then remove_all p (opt_newline (drop (length p) (c # cs)))
      else c # remove_all p cs)"
  by pat_completeness auto
termination
  by (relation "measure (\<lambda>(p, s). length s)") (auto simp: opt_newline_def)

text \<open>\<open>s.replace(/^json\n?/g, '')\<close>: the pattern is anchored, so it matches once at most.\<close>

definition remove_leading_json :: "string \<Rightarrow> string" where
  "remove_leading_json s = (if startsWith s ''json'' then opt_newline (drop 4 s) else s)"

text \<open>The cleaning both phases apply to the text of a response.\<close>

definition clean :: "string \<Rightarrow> string" where
  "clean responseText =
     trim (remove_leading_json (remove_all ''```'' (remove_all ''```json'' responseText)))"

text \<open>
  \<open>s.match(/\{[\s\S]*\}/)\<close>: from the first opening brace to the last closing brace
  behind it.
\<close>

definition brace_match :: "string \<Rightarrow> string option" where
  "brace_match s =
     (let t = dropWhile (\<lambda>c. c \<noteq> CHR ''{'') s;
          u = rev (dropWhile (\<lambda>c. c \<noteq> CHR ''}'') (rev t))
      in if u = [] then None else Some u)"

record initial_analysis =
  index :: nat
  content :: string
  extracted_text :: string
  main_theme :: string
  confidence :: rat
  fileName :: string

text \<open>\<open>item.name || `${item.type}_${index + 1}`\<close>; the type of an item is always \<open>image\<close>.\<close>

definition item_fileName :: "nat \<Rightarrow> item \<Rightarrow> string" where
  "item_fileName i it =
     (case name it of
        None \<Rightarrow> ''image_'' @ show_nat (i + 1)
      | Some s \<Rightarrow> if s \<noteq> [] then s else ''image_'' @ show_nat (i + 1))"

text \<open>The object the inner \<open>catch\<close> substitutes when nothing could be parsed.\<close>

definition fallback_analysis :: "nat \<Rightarrow> json" where
  "fallback_analysis i =
     JObj [(''content'', JStr (''image_document_'' @ show_nat (i + 1))),
           (''extracted_text'', JStr ''Could not extract text''),
           (''main_theme'', JStr ''misc''),
           (''confidence'', JNum 20)]"

text \<open>
  The inner \<open>try\<close>/\<open>catch\<close>: the direct parse; if it throws, the parse of the brace match;
  if there is no match or that parse throws too, the fallback object.
\<close>

definition parse_analysis :: "nat \<Rightarrow> string \<Rightarrow> json" where
  "parse_analysis i cleanResponseText =
     (case JSON_parse cleanResponseText of
        Some a \<Rightarrow> a
      | None \<Rightarrow>
          (case (case brace_match cleanResponseText of
                   None \<Rightarrow> None
                 | Some m \<Rightarrow> JSON_parse m) of
             None \<Rightarrow> fallback_analysis i
           | Some a \<Rightarrow> if truthy a then a else fallback_analysis i))"

text \<open>\<open>Math.min(100, Math.max(0, Number(k) || 50))\<close>; \<open>None\<close> when \<open>Number\<close> throws.\<close>

definition clamped_confidence :: "json option \<Rightarrow> rat option" where
  "clamped_confidence k = map_option (\<lambda>n. clamp (or_50 n)) (Number k)"

text \<open>
  The record returned at the end of the \<open>try\<close> block; \<open>None\<close> when one of the property
  reads or conversions throws.
\<close>

definition build_analysis :: "nat \<Rightarrow> item \<Rightarrow> json \<Rightarrow> initial_analysis option" where
  "build_analysis i it analysis =
     do {
       c \<leftarrow> js_get analysis ''content'';
       cs \<leftarrow> js_String (or_else c (JStr (''image_document_'' @ show_nat (i + 1))));
       e \<leftarrow> js_get analysis ''extracted_text'';
       es \<leftarrow> js_String (or_else e (JStr []));
       t \<leftarrow> js_get analysis ''main_theme'';
       ts \<leftarrow> js_String (or_else t (JStr ''misc''));
       k \<leftarrow> js_get analysis ''confidence'';
       n \<leftarrow> clamped_confidence k;
       Some \<lparr>index = i,
             content = underscore_spaces cs,
             extracted_text = take 150 es,
             main_theme = toLowerCase ts,
             confidence = n,
             fileName = item_fileName i it\<rparr>
     }"

text \<open>The record of the outer \<open>catch\<close> of the callback.\<close>

definition error_analysis :: "nat \<Rightarrow> item \<Rightarrow> initial_analysis" where
  "error_analysis i it =
     \<lparr>index = i,
      content = ''error_image_'' @ show_nat (i + 1),
      extracted_text = ''Processing failed'',
      main_theme = ''misc'',
      confidence = 0,
      fileName = item_fileName i it\<rparr>"

text \<open>
  \<open>buildPromptWithUserInstructions\<close>: the base prompt, followed by the section with the
  user prompt when that is truthy. \<open>`${userPrompt}`\<close> converts the value to a string, and
  throws (\<open>None\<close>) when it has no string conversion.
\<close>

definition userInstructionsSection :: "string \<Rightarrow> string" where
  \<open>userInstructionsSection s =
     ''\<newline>\<newline>USER INSTRUCTIONS:\<newline>The user has provided the following custom instructions for organizing their files:\<newline>"''
     @ s
     @ ''"\<newline>\<newline>IMPORTANT: Follow the user's instructions as closely as possible while maintaining the JSON structure. If the user specifies custom grouping criteria, apply them in your analysis.''\<close>

definition buildPromptWithUserInstructions :: "string \<Rightarrow> json option \<Rightarrow> string option" where
  "buildPromptWithUserInstructions basePrompt userPrompt =
     (case userPrompt of
        None \<Rightarrow> Some basePrompt
      | Some v \<Rightarrow>
          if truthy v
          then map_option (\<lambda>s. basePrompt @ userInstructionsSection s) (js_String v)
          else Some basePrompt)"

definition baseAnalysisPrompt :: string where
  \<open>baseAnalysisPrompt =
     ''You are analyzing an image to extract key information. Look carefully at all visible content, text, UI elements, and context clues.\<newline>\<newline>Analyze this image and return ONLY a valid JSON object with this exact structure:\<newline>\<newline>{\<newline>  "content": "brief content description using underscores (payslip_document, react_error, login_form, api_response, pdf_document, salary_statement, website_page, photo, diagram, etc.)",\<newline>  "extracted_text": "key visible text from the document content (up to 150 characters, focus on meaningful text not UI labels)",\<newline>  "main_theme": "single word describing the primary theme (finance, coding, design, personal, business, error, social, etc.)",\<newline>  "confidence": 85\<newline>}''\<close>

text \<open>
  The category prompt of phase 2 prints the user prompt in the same way,
  \<open>${userPrompt ? `\nUser Instructions: "${userPrompt}"` : ''}\<close>, outside every inner
  \<open>try\<close>; this is when it throws. (The other parts of that prompt are strings.)
\<close>

definition prompt_throws :: "json option \<Rightarrow> bool" where
  "prompt_throws userPrompt =
     (case userPrompt of None \<Rightarrow> False | Some v \<Rightarrow> truthy v \<and> js_String v = None)"

text \<open>
  Whether the callback reaches \<open>generateContent\<close>: the prompt must be built and
  \<open>item.data.replace\<close> must exist, which only a string has.
\<close>

definition reaches_call :: "json option \<Rightarrow> item \<Rightarrow> bool" where
  "reaches_call userPrompt it =
     (buildPromptWithUserInstructions baseAnalysisPrompt userPrompt \<noteq> None
      \<and> is_string (data it))"

text \<open>The callback of \<open>allItems.map\<close>, with the reply of its call.\<close>

definition analyze :: "json option \<Rightarrow> reply \<Rightarrow> nat \<Rightarrow> item \<Rightarrow> initial_analysis" where
  "analyze userPrompt result i it =
     (if \<not> reaches_call userPrompt it then error_analysis i it
      else
        (case result of
           Throws \<Rightarrow> error_analysis i it
         | Returns t \<Rightarrow>
             (case build_analysis i it (parse_analysis i (clean (response_text t))) of
                None \<Rightarrow> error_analysis i it
              | Some a \<Rightarrow> a)))"

text \<open>\<open>Promise.all(allItems.map(...))\<close>: the records in the order of the items.\<close>

definition analyze_all :: "json option \<Rightarrow> (nat \<Rightarrow> reply) \<Rightarrow> item list \<Rightarrow> initial_analysis list" where
  "analyze_all userPrompt generateContent allItems =
     map (\<lambda>(i, it). analyze userPrompt (generateContent i) i it) (enumerate 0 allItems)"

section \<open>Phase 2: the categories\<close>

text \<open>\<open>[...new Set(xs)]\<close>: the distinct values in the order of their first occurrence.\<close>

definition distinct_values :: "string list \<Rightarrow> string list" where
  "distinct_values xs = rev (remdups (rev xs))"

definition imageIndices :: "initial_analysis list \<Rightarrow> string \<Rightarrow> nat list" where
  "imageIndices initialAnalyses theme =
     map fst (filter (\<lambda>(i, a). main_theme a = theme) (enumerate 0 initialAnalyses))"

definition theme_category :: "initial_analysis list \<Rightarrow> string \<Rightarrow> json" where
  "theme_category initialAnalyses theme =
     JObj [(''description'', JStr (''Images related to '' @ theme)),
           (''images'', JArr (map (\<lambda>i. JNum (of_nat i)) (imageIndices initialAnalyses theme)))]"

text \<open>The \<open>reduce\<close> over the themes, starting from \<open>{}\<close>.\<close>

definition theme_categories :: "initial_analysis list \<Rightarrow> (string \<times> json) list" where
  "theme_categories initialAnalyses =
     foldl (\<lambda>acc theme. obj_assign acc theme (theme_category initialAnalyses theme)) []
       (distinct_values (map main_theme initialAnalyses))"

definition fallback_categorization :: "initial_analysis list \<Rightarrow> json" where
  "fallback_categorization initialAnalyses =
     JObj [(''categories'', JObj (theme_categories initialAnalyses))]"

text \<open>
  The \<open>try\<close>/\<open>catch\<close> of phase 2: the value of \<open>categorization\<close>. The text is parsed once;
  a thrown call or a \<open>SyntaxError\<close> leads to the grouping by theme.
\<close>

definition synthesize :: "reply \<Rightarrow> initial_analysis list \<Rightarrow> json" where
  "synthesize categoryResult initialAnalyses =
     (case categoryResult of
        Throws \<Rightarrow> fallback_categorization initialAnalyses
      | Returns t \<Rightarrow>
          (case JSON_parse (clean (response_text t)) of
             None \<Rightarrow> fallback_categorization initialAnalyses
           | Some c \<Rightarrow> c))"

section \<open>Phase 3: the results\<close>

record result =
  r_index :: nat
  r_content :: string
  r_category :: string
  r_extracted_text :: string
  r_confidence :: rat
  r_status :: string
  r_fileType :: string
  r_fileName :: string

text \<open>\<open>Object.entries(v)\<close> for a truthy value or \<open>{}\<close>.\<close>

fun Object_entries :: "json \<Rightarrow> (string \<times> json) list" where
  "Object_entries (JObj ps) = ps"
| "Object_entries (JArr xs) = zip (map show_nat [0..<length xs]) xs"
| "Object_entries (JStr s) = zip (map show_nat [0..<length s]) (map (\<lambda>c. JStr [c]) s)"
| "Object_entries v = []"

text \<open>
  \<open>v.includes(index)\<close> for a truthy \<open>v\<close>: \<open>Array.prototype.includes\<close> compares the elements
  with the number, \<open>String.prototype.includes\<close> searches the decimal digits of the
  number; no other value has a callable \<open>includes\<close>, and the call throws (\<open>None\<close>).
\<close>

fun js_includes :: "json \<Rightarrow> nat \<Rightarrow> bool option" where
  "js_includes (JArr xs) i = Some (JNum (of_nat i) \<in> set xs)"
| "js_includes (JStr s) i = Some (str_includes s (show_nat i))"
| "js_includes v i = None"

text \<open>The callback of \<open>find\<close>: \<open>categoryInfo.images && categoryInfo.images.includes(index)\<close>.\<close>

definition lists_image :: "json \<Rightarrow> nat \<Rightarrow> bool option" where
  "lists_image categoryInfo i =
     (case js_get categoryInfo ''images'' of
        None \<Rightarrow> None
      | Some None \<Rightarrow> Some False
      | Some (Some v) \<Rightarrow> if truthy v then js_includes v i else Some False)"

text \<open>
  \<open>entries.find(...)\<close>: the key of the first entry the callback accepts, \<open>Some None\<close>
  when there is none, \<open>None\<close> when the callback throws before an entry is accepted.
\<close>

fun find_entry :: "(string \<times> json) list \<Rightarrow> nat \<Rightarrow> string option option" where
  "find_entry [] i = Some None"
| "find_entry ((k, categoryInfo) # es) i =
     (case lists_image categoryInfo i of
        None \<Rightarrow> None
      | Some b \<Rightarrow> if b then Some (Some k) else find_entry es i)"

text \<open>\<open>categorization.categories || {}\<close>; \<open>None\<close> when \<open>categorization\<close> is \<open>null\<close>.\<close>

definition categories_of :: "json \<Rightarrow> json option" where
  "categories_of categorization =
     map_option (\<lambda>x. or_else x (JObj [])) (js_get categorization ''categories'')"

text \<open>The callback of \<open>initialAnalyses.map\<close> in phase 3.\<close>

definition result_for :: "json \<Rightarrow> nat \<Rightarrow> initial_analysis \<Rightarrow> result option" where
  "result_for categorization i analysis =
     do {
       cats \<leftarrow> categories_of categorization;
       categoryEntry \<leftarrow> find_entry (Object_entries cats) i;
       Some \<lparr>r_index = index analysis,
             r_content = content analysis,
             r_category = (case categoryEntry of Some k \<Rightarrow> k | None \<Rightarrow> ''uncategorized''),
             r_extracted_text = extracted_text analysis,
             r_confidence = confidence analysis,
             r_status = ''success'',
             r_fileType = ''image'',
             r_fileName = fileName analysis\<rparr>
     }"

text \<open>\<open>initialAnalyses.map(...)\<close> of phase 3: an exception in a callback ends the map.\<close>

definition assemble :: "json \<Rightarrow> initial_analysis list \<Rightarrow> result list option" where
  "assemble categorization initialAnalyses =
     those (map (\<lambda>(i, a). result_for categorization i a) (enumerate 0 initialAnalyses))"

section \<open>The handler\<close>

text \<open>
  The JSON response: the error body with its HTTP status, or the results with the
  categories (the echo of \<open>userPrompt\<close> is left out).
\<close>

datatype response =
    ErrorResponse string nat
  | Success "result list" json

text \<open>What a run of the handler does: its response and the number of inference calls.\<close>

record outcome =
  response :: response
  inference_calls :: nat

definition internal_error :: response where
  "internal_error = ErrorResponse ''Internal server error'' 500"

text \<open>
  \<open>POST\<close>, given the reply of the service to the call for each item and to the
  categorization call. Any exception outside the two inner \<open>try\<close> blocks ends in the
  outer \<open>catch\<close>. With at least one item, the read \<open>categorization.categories\<close> of the
  response object has already succeeded in phase 3.
\<close>

definition POST :: "(nat \<Rightarrow> reply) \<Rightarrow> reply \<Rightarrow> request \<Rightarrow> outcome" where
  "POST generateContent categoryResult req =
     (case ingest req of
        None \<Rightarrow> \<lparr>response = internal_error, inference_calls = 0\<rparr>
      | Some (allItems, userPrompt) \<Rightarrow>
          if length allItems = 0 then
            \<lparr>response = ErrorResponse ''No images provided'' 400, inference_calls = 0\<rparr>
          else if length allItems > 10 then
            \<lparr>response = ErrorResponse ''Maximum 10 images allowed'' 400, inference_calls = 0\<rparr>
          else
            (let initialAnalyses = analyze_all userPrompt generateContent allItems;
                 calls = length (filter (reaches_call userPrompt) allItems)
             in if prompt_throws userPrompt then
                  \<lparr>response = internal_error, inference_calls = calls\<rparr>
                else
                  (let categorization = synthesize categoryResult initialAnalyses in
                   case assemble categorization initialAnalyses of
                     None \<Rightarrow> \<lparr>response = internal_error, inference_calls = calls + 1\<rparr>
                   | Some results \<Rightarrow>
                       (case categories_of categorization of
                          None \<Rightarrow> \<lparr>response = internal_error, inference_calls = calls + 1\<rparr>
                        | Some cats \<Rightarrow>
                            \<lparr>response = Success results cats,
                             inference_calls = calls + 1\<rparr>))))"

section \<open>The categories as the specification describes them\<close>

text \<open>
  The member-index list of a category is the array under its \<open>images\<close> key. A value
  is a category when it is an object whose \<open>images\<close>, if present, is an array.
\<close>

definition member_indices :: "json \<Rightarrow> json list" where
  "member_indices categoryInfo =
     (case categoryInfo of
        JObj ps \<Rightarrow> (case map_of ps ''images'' of Some (JArr xs) \<Rightarrow> xs | _ \<Rightarrow> [])
      | _ \<Rightarrow> [])"

definition is_category :: "json \<Rightarrow> bool" where
  "is_category categoryInfo =
     (case categoryInfo of
        JObj ps \<Rightarrow>
          (case map_of ps ''images'' of
             None \<Rightarrow> True
           | Some (JArr xs) \<Rightarrow> True
           | Some v \<Rightarrow> False)
      | _ \<Rightarrow> False)"

text \<open>
  The assignment the specification describes: the name of the first category, in the
  order of the map, whose member-index list contains the index, and the reserved name
  when there is none.
\<close>

fun first_category_listing :: "(string \<times> json) list \<Rightarrow> nat \<Rightarrow> string" where
  "first_category_listing [] i = ''uncategorized''"
| "first_category_listing ((k, categoryInfo) # es) i =
     (if JNum (of_nat i) \<in> set (member_indices categoryInfo) then k
      else first_category_listing es i)"

text \<open>
  All member indices of a categories map, category after category, and the invariant the
  specification states for a batch of \<open>n\<close> items: every index below \<open>n\<close> occurs exactly
  once, and nothing else occurs.
\<close>

definition all_member_indices :: "json \<Rightarrow> json list" where
  "all_member_indices cats =
     concat (map (\<lambda>(k, categoryInfo). member_indices categoryInfo) (Object_entries cats))"

definition every_index_once :: "json \<Rightarrow> nat \<Rightarrow> bool" where
  "every_index_once cats n =
     (list_all (\<lambda>i. count_list (all_member_indices cats) (JNum (of_nat i)) = 1) [0..<n]
      \<and> length (all_member_indices cats) = n)"


section \<open>Concrete requests and replies\<close>

text \<open>A service whose every per-item call throws.\<close>

definition every_call_throws :: "nat \<Rightarrow> reply" where
  "every_call_throws i = Throws"

text \<open>A JSON body with eleven data URLs, and one with an empty list.\<close>

definition eleven_images :: request where
  "eleven_images =
     JsonBody (JObj [(''images'', JArr (replicate 11 (JStr ''data:image/png;base64,AAAA'')))])"

definition no_images :: request where
  "no_images = JsonBody (JObj [(''images'', JArr [])])"

text \<open>A JSON body with one data URL.\<close>

definition single_image :: request where
  "single_image = JsonBody (JObj [(''images'', JArr [JStr ''data:image/png;base64,AAAA''])])"

text \<open>A JSON body with two data URLs, and the item made from a data URL.\<close>

definition two_images :: request where
  "two_images =
     JsonBody (JObj [(''images'', JArr [JStr ''data:image/png;base64,AAAA'',
                                        JStr ''data:image/png;base64,BBBB''])])"

definition data_url_item :: item where
  "data_url_item = \<lparr>data = Given (JStr ''data:image/png;base64,AAAA''), name = None\<rparr>"

text \<open>
  A categorization that lists index 0 twice and index 1 nowhere; an analysis with a
  fractional confidence; one with a negative confidence.
\<close>

definition repeated_index_reply :: reply where
  \<open>repeated_index_reply =
     Returns (Some ''{"categories": {"receipts": {"description": "Receipts", "images": [0, 0]}}}'')\<close>

definition fractional_reply :: reply where
  \<open>fractional_reply = Returns (Some ''{"content": "invoice", "confidence": 85.5}'')\<close>

definition every_call_fractional :: "nat \<Rightarrow> reply" where
  "every_call_fractional i = fractional_reply"


text \<open>
  A categorization whose two categories both list index 1 and none lists index 2, and
  three records to assemble.
\<close>

definition overlapping_categorization :: json where
  "overlapping_categorization =
     JObj [(''categories'',
            JObj [(''docs'', JObj [(''description'', JStr ''Documents''),
                                   (''images'', JArr [JNum 0, JNum 1])]),
                  (''photos'', JObj [(''description'', JStr ''Photos''),
                                     (''images'', JArr [JNum 1])])])]"

definition three_records :: "initial_analysis list" where
  "three_records =
     [error_analysis 0 data_url_item, error_analysis 1 data_url_item,
      error_analysis 2 data_url_item]"

text \<open>Three uploaded files: a PDF, a PNG, and a HEIC photo without a declared type.\<close>

definition pdf_file :: File where
  "pdf_file = \<lparr>file_type = ''application/pdf'', file_name = ''report.pdf''\<rparr>"

definition png_file :: File where
  "png_file = \<lparr>file_type = ''image/png'', file_name = ''shot.png''\<rparr>"

definition heic_file :: File where
  "heic_file = \<lparr>file_type = [], file_name = ''IMG_1.HEIC''\<rparr>"

text \<open>A service whose call for item 0 throws and whose other calls answer.\<close>

definition first_call_throws :: "nat \<Rightarrow> reply" where
  "first_call_throws i = (if i = 0 then Throws else fractional_reply)"

text \<open>A categorization reply that wraps its JSON object in a sentence.\<close>

definition prose_wrapped_text :: string where
  \<open>prose_wrapped_text =
     ''Here are the categories: {"categories": {"documents": {"description": "Scanned papers", "images": [0]}}}''\<close>

text \<open>An analysis whose theme is the string \<open>__proto__\<close>.\<close>

definition proto_theme_reply :: reply where
  \<open>proto_theme_reply =
     Returns (Some ''{"content": "note", "main_theme": "__proto__", "confidence": 90}'')\<close>

definition every_call_proto :: "nat \<Rightarrow> reply" where
  "every_call_proto i = proto_theme_reply"

text \<open>
  Categorization replies outside the data model: the JSON text \<open>null\<close>, a category whose
  \<open>images\<close> is the string \<open>10\<close>, and one whose \<open>images\<close> is the number 7.
\<close>

definition null_reply :: reply where
  "null_reply = Returns (Some ''null'')"

definition string_images_reply :: reply where
  \<open>string_images_reply =
     Returns (Some ''{"categories": {"a": {"description": "A", "images": "10"}}}'')\<close>

definition number_images_reply :: reply where
  \<open>number_images_reply =
     Returns (Some ''{"categories": {"a": {"description": "A", "images": 7}}}'')\<close>

section \<open>Auxiliary facts\<close>

subsection \<open>The bound of the parser never cuts a parse short\<close>

lemma length_skip_ws: "length (skip_ws cs) \<le> length cs"
  by (simp add: skip_ws_def length_dropWhile_le)

lemma skip_ws_Cons_shorter: "skip_ws cs = c # r \<Longrightarrow> length r < length cs"
  using length_skip_ws [of cs] by simp

lemma cons_char_Some:
  "cons_char x p = Some (s, r) \<Longrightarrow> \<exists>s'. p = Some (s', r)"
  by (cases p) (auto simp: cons_char_def)

lemma json_chars_shorter: "json_chars cs = Some (s, r) \<Longrightarrow> length r < length cs"
proof (induction cs arbitrary: s rule: length_induct)
  case (1 cs)
  note IH = "1.IH" [rule_format]
  show ?case
  proof (cases cs)
    case Nil
    with "1.prems" show ?thesis by simp
  next
    case (Cons c t)
    consider (quote) "c = CHR 0x22"
      | (escape) "c \<noteq> CHR 0x22" "c = CHR 0x5C"
      | (plain) "c \<noteq> CHR 0x22" "c \<noteq> CHR 0x5C" by blast
    then show ?thesis
    proof cases
      case quote
      with "1.prems" Cons show ?thesis by simp
    next
      case plain
      with "1.prems" Cons have "cons_char c (json_chars t) = Some (s, r)"
        by (auto split: if_splits)
      from cons_char_Some [OF this] obtain s' where "json_chars t = Some (s', r)" by blast
      from IH [OF _ this] Cons show ?thesis by simp
    next
      case escape
      show ?thesis
      proof (cases t)
        case Nil
        with "1.prems" Cons escape show ?thesis by simp
      next
        case e: (Cons e r0)
        show ?thesis
        proof (cases "e = CHR ''u''")
          case True
          with "1.prems" Cons escape e obtain n :: int
            where "cons_char (char_of n) (json_chars (drop 4 r0)) = Some (s, r)"
            by (auto split: if_splits option.splits)
          from cons_char_Some [OF this]
          obtain s' where s': "json_chars (drop 4 r0) = Some (s', r)" by blast
          have "length (drop 4 r0) < length cs" using Cons e by simp
          from IH [OF this s'] have "length r < length r0 - 4" by simp
          then show ?thesis using Cons e by simp
        next
          case False
          with "1.prems" Cons escape e obtain x
            where "cons_char x (json_chars r0) = Some (s, r)"
            by (auto split: option.splits)
          from cons_char_Some [OF this]
          obtain s' where "json_chars r0 = Some (s', r)" by blast
          from IH [OF _ this] Cons e show ?thesis by simp
        qed
      qed
    qed
  qed
qed

lemma opt_sign_length: "opt_sign cs = (neg, u) \<Longrightarrow> length u \<le> length cs"
  by (cases cs) (auto split: if_splits)

lemma scan_exp_length: "scan_exp cs = Some (e, r) \<Longrightarrow> length r \<le> length cs"
proof (cases cs)
  case Nil
  assume "scan_exp cs = Some (e, r)"
  with Nil show ?thesis by simp
next
  case (Cons c t)
  assume a: "scan_exp cs = Some (e, r)"
  obtain neg u where o: "opt_sign t = (neg, u)" by (cases "opt_sign t")
  from opt_sign_length [OF o] have "length (dropWhile is_digit u) \<le> length t"
    using length_dropWhile_le [of is_digit u] by linarith
  with a Cons o show ?thesis
    by (auto simp: Let_def split: if_splits)
qed

lemma int_part_shorter: "int_part cs = Some (ip, r) \<Longrightarrow> length r < length cs"
  using length_dropWhile_le [of is_digit "tl cs"]
  by (cases cs) (auto split: if_splits simp: less_Suc_eq_le)

lemma frac_part_length: "frac_part cs = Some (fp, r) \<Longrightarrow> length r \<le> length cs"
  using length_dropWhile_le [of is_digit "tl cs"]
  by (cases cs) (auto split: if_splits)

lemma json_number_shorter:
  assumes "json_number cs = Some (x, r)"
  shows "length r < length cs"
proof -
  define cs1 where "cs1 = (if cs \<noteq> [] \<and> hd cs = CHR ''-'' then tl cs else cs)"
  have l1: "length cs1 \<le> length cs" by (simp add: cs1_def)
  from assms obtain ip cs2 fp cs3 e
    where "int_part cs1 = Some (ip, cs2)" "frac_part cs2 = Some (fp, cs3)"
      "scan_exp cs3 = Some (e, r)"
    by (auto simp: json_number_def Let_def cs1_def split: option.splits)
  from int_part_shorter [OF this(1)] frac_part_length [OF this(2)]
    scan_exp_length [OF this(3)] l1
  show ?thesis by linarith
qed

lemma startsWith_drop_shorter:
  assumes "startsWith cs p" and "length p = n" and "0 < n"
  shows "length (drop n cs) < length cs"
proof -
  from assms(1) have "length (take (length p) cs) = length p"
    by (simp add: startsWith_def)
  then have "length p \<le> length cs" by simp
  with assms(2,3) have "0 < length cs" by linarith
  with assms(3) show ?thesis by (simp add: diff_less)
qed

lemma parse_scalar_shorter:
  assumes "parse_scalar cs = Some (v, r)"
  shows "length r < length cs"
proof (cases "startsWith cs [CHR 0x22]")
  case True
  with assms obtain s where s: "json_chars (tl cs) = Some (s, r)"
    by (auto simp: parse_scalar_def)
  from True have "cs \<noteq> []" by (auto simp: startsWith_def)
  with json_chars_shorter [OF s] show ?thesis by (cases cs) auto
next
  case q: False
  show ?thesis
  proof (cases "startsWith cs ''true''")
    case True
    with q assms have "r = drop 4 cs" by (auto simp: parse_scalar_def)
    with startsWith_drop_shorter [OF True, of 4] show ?thesis by simp
  next
    case t: False
    show ?thesis
    proof (cases "startsWith cs ''false''")
      case True
      with q t assms have "r = drop 5 cs" by (auto simp: parse_scalar_def)
      with startsWith_drop_shorter [OF True, of 5] show ?thesis by simp
    next
      case f: False
      show ?thesis
      proof (cases "startsWith cs ''null''")
        case True
        with q t f assms have "r = drop 4 cs" by (auto simp: parse_scalar_def)
        with startsWith_drop_shorter [OF True, of 4] show ?thesis by simp
      next
        case False
        with q t f assms obtain x where "json_number cs = Some (x, r)"
          by (auto simp: parse_scalar_def)
        from json_number_shorter [OF this] show ?thesis .
      qed
    qed
  qed
qed

lemma parse_value_SucE:
  assumes "parse_value (Suc f) cs = Some (v, r)"
  obtains
    (empty_object) r0 where "skip_ws cs = CHR ''{'' # r0" "skip_ws r0 = CHR ''}'' # r" "v = JObj []"
  | (object) r0 c' r' where "skip_ws cs = CHR ''{'' # r0" "skip_ws r0 = c' # r'" "c' \<noteq> CHR ''}''"
      "parse_members f [] r0 = Some (v, r)"
  | (empty_array) r0 where "skip_ws cs = CHR ''['' # r0" "skip_ws r0 = CHR '']'' # r" "v = JArr []"
  | (array) r0 c' r' where "skip_ws cs = CHR ''['' # r0" "skip_ws r0 = c' # r'" "c' \<noteq> CHR '']''"
      "parse_elements f [] r0 = Some (v, r)"
  | (scalar) c r0 where "skip_ws cs = c # r0" "c \<noteq> CHR ''{''" "c \<noteq> CHR ''[''"
      "parse_scalar (c # r0) = Some (v, r)"
proof (cases "skip_ws cs")
  case Nil
  with assms show ?thesis by simp
next
  case (Cons c r0)
  show ?thesis
  proof (cases "c = CHR ''{''")
    case True
    with assms Cons show ?thesis
      by (cases "skip_ws r0") (auto split: if_splits intro: empty_object object)
  next
    case nb: False
    show ?thesis
    proof (cases "c = CHR ''[''")
      case True
      with assms Cons show ?thesis
        by (cases "skip_ws r0") (auto split: if_splits intro: empty_array array)
    next
      case False
      with nb assms Cons show ?thesis by (auto intro: scalar)
    qed
  qed
qed

lemma parse_elements_SucE:
  assumes "parse_elements (Suc f) acc cs = Some (v, r)"
  obtains
    (more) x r1 r' where "parse_value f cs = Some (x, r1)" "skip_ws r1 = CHR '','' # r'"
      "parse_elements f (acc @ [x]) r' = Some (v, r)"
  | (last) x r1 where "parse_value f cs = Some (x, r1)" "skip_ws r1 = CHR '']'' # r"
      "v = JArr (acc @ [x])"
proof (cases "parse_value f cs")
  case None
  with assms show ?thesis by simp
next
  case (Some p)
  obtain x r1 where p: "p = (x, r1)" by (cases p)
  with assms Some show ?thesis
    by (cases "skip_ws r1") (auto split: if_splits intro: more last)
qed

lemma parse_members_SucE:
  assumes "parse_members (Suc f) ps cs = Some (v, r)"
  obtains
    (more) r0 k r1 r2 x r3 r4 where "skip_ws cs = CHR 0x22 # r0" "json_chars r0 = Some (k, r1)"
      "skip_ws r1 = CHR '':'' # r2" "parse_value f r2 = Some (x, r3)"
      "skip_ws r3 = CHR '','' # r4" "parse_members f (obj_define ps k x) r4 = Some (v, r)"
  | (last) r0 k r1 r2 x r3 where "skip_ws cs = CHR 0x22 # r0" "json_chars r0 = Some (k, r1)"
      "skip_ws r1 = CHR '':'' # r2" "parse_value f r2 = Some (x, r3)"
      "skip_ws r3 = CHR ''}'' # r" "v = JObj (obj_define ps k x)"
proof (cases "skip_ws cs")
  case Nil
  with assms show ?thesis by simp
next
  case (Cons q r0)
  with assms have q: "q = CHR 0x22" by (auto split: if_splits)
  show ?thesis
  proof (cases "json_chars r0")
    case None
    with assms Cons q show ?thesis by simp
  next
    case (Some p)
    obtain k r1 where p: "p = (k, r1)" by (cases p)
    show ?thesis
    proof (cases "skip_ws r1")
      case Nil
      with assms Cons q Some p show ?thesis by simp
    next
      case c1: (Cons c1 r2)
      with assms Cons q Some p have c: "c1 = CHR '':''" by (auto split: if_splits)
      show ?thesis
      proof (cases "parse_value f r2")
        case None
        with assms Cons q Some p c1 c show ?thesis by simp
      next
        case v: (Some pv)
        obtain x r3 where pv: "pv = (x, r3)" by (cases pv)
        from assms Cons q Some p c1 c v pv show ?thesis
          by (cases "skip_ws r3") (auto split: if_splits intro: more last)
      qed
    qed
  qed
qed

lemma parse_shorter:
  "(\<forall>cs v r. parse_value f cs = Some (v, r) \<longrightarrow> length r < length cs)
   \<and> (\<forall>acc cs v r. parse_elements f acc cs = Some (v, r) \<longrightarrow> length r < length cs)
   \<and> (\<forall>ps cs v r. parse_members f ps cs = Some (v, r) \<longrightarrow> length r < length cs)"
proof (induction f)
  case 0
  show ?case by simp
next
  case (Suc f)
  then have V: "\<And>cs v r. parse_value f cs = Some (v, r) \<Longrightarrow> length r < length cs"
    and E: "\<And>acc cs v r. parse_elements f acc cs = Some (v, r) \<Longrightarrow> length r < length cs"
    and M: "\<And>ps cs v r. parse_members f ps cs = Some (v, r) \<Longrightarrow> length r < length cs"
    by blast+
  have "length r < length cs" if "parse_value (Suc f) cs = Some (v, r)" for cs v r
    using that
  proof (cases rule: parse_value_SucE)
    case (empty_object r0)
    from skip_ws_Cons_shorter [OF this(1)] skip_ws_Cons_shorter [OF this(2)]
    show ?thesis by linarith
  next
    case (object r0 c' r')
    from skip_ws_Cons_shorter [OF this(1)] M [OF this(4)] show ?thesis by linarith
  next
    case (empty_array r0)
    from skip_ws_Cons_shorter [OF this(1)] skip_ws_Cons_shorter [OF this(2)]
    show ?thesis by linarith
  next
    case (array r0 c' r')
    from skip_ws_Cons_shorter [OF this(1)] E [OF this(4)] show ?thesis by linarith
  next
    case (scalar c r0)
    from skip_ws_Cons_shorter [OF this(1)] parse_scalar_shorter [OF this(4)]
    show ?thesis by simp
  qed
  moreover
  have "length r < length cs" if "parse_elements (Suc f) acc cs = Some (v, r)" for acc cs v r
    using that
  proof (cases rule: parse_elements_SucE)
    case (more x r1 r')
    from V [OF this(1)] skip_ws_Cons_shorter [OF this(2)] E [OF this(3)]
    show ?thesis by linarith
  next
    case (last x r1)
    from V [OF this(1)] skip_ws_Cons_shorter [OF this(2)] show ?thesis by linarith
  qed
  moreover
  have "length r < length cs" if "parse_members (Suc f) ps cs = Some (v, r)" for ps cs v r
    using that
  proof (cases rule: parse_members_SucE)
    case (more r0 k r1 r2 x r3 r4)
    from skip_ws_Cons_shorter [OF this(1)] json_chars_shorter [OF this(2)]
      skip_ws_Cons_shorter [OF this(3)] V [OF this(4)] skip_ws_Cons_shorter [OF this(5)]
      M [OF this(6)]
    show ?thesis by linarith
  next
    case (last r0 k r1 r2 x r3)
    from skip_ws_Cons_shorter [OF this(1)] json_chars_shorter [OF this(2)]
      skip_ws_Cons_shorter [OF this(3)] V [OF this(4)] skip_ws_Cons_shorter [OF this(5)]
    show ?thesis by linarith
  qed
  ultimately show ?case by blast
qed

lemma parse_value_shorter: "parse_value f cs = Some (v, r) \<Longrightarrow> length r < length cs"
  and parse_elements_shorter: "parse_elements f acc cs = Some (v, r) \<Longrightarrow> length r < length cs"
  and parse_members_shorter: "parse_members f ps cs = Some (v, r) \<Longrightarrow> length r < length cs"
  using parse_shorter [of f] by blast+

lemma parse_value_SucI:
  "skip_ws cs = CHR ''{'' # r0 \<Longrightarrow> skip_ws r0 = c' # r' \<Longrightarrow> c' \<noteq> CHR ''}'' \<Longrightarrow>
     parse_value (Suc f) cs = parse_members f [] r0"
  "skip_ws cs = CHR ''['' # r0 \<Longrightarrow> skip_ws r0 = c' # r' \<Longrightarrow> c' \<noteq> CHR '']'' \<Longrightarrow>
     parse_value (Suc f) cs = parse_elements f [] r0"
  "skip_ws cs = c # r0 \<Longrightarrow> c \<noteq> CHR ''{'' \<Longrightarrow> c \<noteq> CHR ''['' \<Longrightarrow>
     parse_value (Suc f) cs = parse_scalar (c # r0)"
  "skip_ws cs = CHR ''{'' # r0 \<Longrightarrow> skip_ws r0 = CHR ''}'' # r \<Longrightarrow>
     parse_value (Suc f) cs = Some (JObj [], r)"
  "skip_ws cs = CHR ''['' # r0 \<Longrightarrow> skip_ws r0 = CHR '']'' # r \<Longrightarrow>
     parse_value (Suc f) cs = Some (JArr [], r)"
  by simp_all

lemma parse_elements_SucI:
  "parse_value f cs = Some (x, r1) \<Longrightarrow> skip_ws r1 = CHR '','' # r' \<Longrightarrow>
     parse_elements (Suc f) acc cs = parse_elements f (acc @ [x]) r'"
  "parse_value f cs = Some (x, r1) \<Longrightarrow> skip_ws r1 = CHR '']'' # r \<Longrightarrow>
     parse_elements (Suc f) acc cs = Some (JArr (acc @ [x]), r)"
  by simp_all

lemma parse_members_SucI:
  "skip_ws cs = CHR 0x22 # r0 \<Longrightarrow> json_chars r0 = Some (k, r1) \<Longrightarrow>
   skip_ws r1 = CHR '':'' # r2 \<Longrightarrow> parse_value f r2 = Some (x, r3) \<Longrightarrow>
   skip_ws r3 = CHR '','' # r4 \<Longrightarrow>
     parse_members (Suc f) ps cs = parse_members f (obj_define ps k x) r4"
  "skip_ws cs = CHR 0x22 # r0 \<Longrightarrow> json_chars r0 = Some (k, r1) \<Longrightarrow>
   skip_ws r1 = CHR '':'' # r2 \<Longrightarrow> parse_value f r2 = Some (x, r3) \<Longrightarrow>
   skip_ws r3 = CHR ''}'' # r \<Longrightarrow>
     parse_members (Suc f) ps cs = Some (JObj (obj_define ps k x), r)"
  by simp_all

lemma parse_more_fuel:
  "(\<forall>cs v r. parse_value f cs = Some (v, r) \<longrightarrow> parse_value (Suc f) cs = Some (v, r))
   \<and> (\<forall>acc cs v r. parse_elements f acc cs = Some (v, r)
          \<longrightarrow> parse_elements (Suc f) acc cs = Some (v, r))
   \<and> (\<forall>ps cs v r. parse_members f ps cs = Some (v, r)
          \<longrightarrow> parse_members (Suc f) ps cs = Some (v, r))"
proof (induction f)
  case 0
  show ?case by simp
next
  case (Suc f)
  then have V: "\<And>cs v r. parse_value f cs = Some (v, r) \<Longrightarrow> parse_value (Suc f) cs = Some (v, r)"
    and E: "\<And>acc cs v r. parse_elements f acc cs = Some (v, r)
              \<Longrightarrow> parse_elements (Suc f) acc cs = Some (v, r)"
    and M: "\<And>ps cs v r. parse_members f ps cs = Some (v, r)
              \<Longrightarrow> parse_members (Suc f) ps cs = Some (v, r)"
    by blast+
  have "parse_value (Suc (Suc f)) cs = Some (v, r)"
    if "parse_value (Suc f) cs = Some (v, r)" for cs v r
    using that
  proof (cases rule: parse_value_SucE)
    case (empty_object r0)
    then show ?thesis by (simp add: parse_value_SucI(4))
  next
    case (object r0 c' r')
    from M [OF this(4)] parse_value_SucI(1) [OF object(1-3)] show ?thesis by simp
  next
    case (empty_array r0)
    then show ?thesis by (simp add: parse_value_SucI(5))
  next
    case (array r0 c' r')
    from E [OF this(4)] parse_value_SucI(2) [OF array(1-3)] show ?thesis by simp
  next
    case (scalar c r0)
    from parse_value_SucI(3) [OF scalar(1-3)] scalar(4) show ?thesis by simp
  qed
  moreover
  have "parse_elements (Suc (Suc f)) acc cs = Some (v, r)"
    if "parse_elements (Suc f) acc cs = Some (v, r)" for acc cs v r
    using that
  proof (cases rule: parse_elements_SucE)
    case (more x r1 r')
    from parse_elements_SucI(1) [OF V [OF more(1)] more(2)] E [OF more(3)]
    show ?thesis by simp
  next
    case (last x r1)
    from parse_elements_SucI(2) [OF V [OF last(1)] last(2)] last(3)
    show ?thesis by simp
  qed
  moreover
  have "parse_members (Suc (Suc f)) ps cs = Some (v, r)"
    if "parse_members (Suc f) ps cs = Some (v, r)" for ps cs v r
    using that
  proof (cases rule: parse_members_SucE)
    case (more r0 k r1 r2 x r3 r4)
    from parse_members_SucI(1) [OF more(1-3) V [OF more(4)] more(5)] M [OF more(6)]
    show ?thesis by simp
  next
    case (last r0 k r1 r2 x r3)
    from parse_members_SucI(2) [OF last(1-3) V [OF last(4)] last(5)] last(6)
    show ?thesis by simp
  qed
  ultimately show ?case by blast
qed

lemma parse_value_mono:
  "f \<le> g \<Longrightarrow> parse_value f cs = Some (v, r) \<Longrightarrow> parse_value g cs = Some (v, r)"
proof (induction g)
  case 0
  then show ?case by simp
next
  case (Suc g)
  show ?case
  proof (cases "f = Suc g")
    case True
    with Suc.prems show ?thesis by simp
  next
    case False
    with Suc.prems have "f \<le> g" by simp
    from Suc.IH [OF this Suc.prems(2)] parse_more_fuel [of g] show ?thesis by blast
  qed
qed

lemma parse_elements_mono:
  "f \<le> g \<Longrightarrow> parse_elements f acc cs = Some (v, r) \<Longrightarrow> parse_elements g acc cs = Some (v, r)"
proof (induction g)
  case 0
  then show ?case by simp
next
  case (Suc g)
  show ?case
  proof (cases "f = Suc g")
    case True
    with Suc.prems show ?thesis by simp
  next
    case False
    with Suc.prems have "f \<le> g" by simp
    from Suc.IH [OF this Suc.prems(2)] parse_more_fuel [of g] show ?thesis by blast
  qed
qed

lemma parse_members_mono:
  "f \<le> g \<Longrightarrow> parse_members f ps cs = Some (v, r) \<Longrightarrow> parse_members g ps cs = Some (v, r)"
proof (induction g)
  case 0
  then show ?case by simp
next
  case (Suc g)
  show ?case
  proof (cases "f = Suc g")
    case True
    with Suc.prems show ?thesis by simp
  next
    case False
    with Suc.prems have "f \<le> g" by simp
    from Suc.IH [OF this Suc.prems(2)] parse_more_fuel [of g] show ?thesis by blast
  qed
qed

lemma parse_needs_consumed:
  "(\<forall>cs v r. parse_value f cs = Some (v, r)
       \<longrightarrow> parse_value (length cs - length r) cs = Some (v, r))
   \<and> (\<forall>acc cs v r. parse_elements f acc cs = Some (v, r)
          \<longrightarrow> parse_elements (length cs - length r) acc cs = Some (v, r))
   \<and> (\<forall>ps cs v r. parse_members f ps cs = Some (v, r)
          \<longrightarrow> parse_members (length cs - length r) ps cs = Some (v, r))"
proof (induction f)
  case 0
  show ?case by simp
next
  case (Suc f)
  then have V: "\<And>cs v r. parse_value f cs = Some (v, r)
                  \<Longrightarrow> parse_value (length cs - length r) cs = Some (v, r)"
    and E: "\<And>acc cs v r. parse_elements f acc cs = Some (v, r)
              \<Longrightarrow> parse_elements (length cs - length r) acc cs = Some (v, r)"
    and M: "\<And>ps cs v r. parse_members f ps cs = Some (v, r)
              \<Longrightarrow> parse_members (length cs - length r) ps cs = Some (v, r)"
    by blast+
  have "parse_value (length cs - length r) cs = Some (v, r)"
    if "parse_value (Suc f) cs = Some (v, r)" for cs v r
  proof -
    from parse_value_shorter [OF that] obtain g where g: "length cs - length r = Suc g"
      by (cases "length cs - length r") auto
    from that have "parse_value (Suc g) cs = Some (v, r)"
    proof (cases rule: parse_value_SucE)
      case (empty_object r0)
      then show ?thesis by (simp add: parse_value_SucI(4))
    next
      case (object r0 c' r')
      from skip_ws_Cons_shorter [OF object(1)] parse_members_shorter [OF object(4)] g
      have "length r0 - length r \<le> g" by linarith
      from parse_members_mono [OF this M [OF object(4)]] parse_value_SucI(1) [OF object(1-3)]
      show ?thesis by simp
    next
      case (empty_array r0)
      then show ?thesis by (simp add: parse_value_SucI(5))
    next
      case (array r0 c' r')
      from skip_ws_Cons_shorter [OF array(1)] parse_elements_shorter [OF array(4)] g
      have "length r0 - length r \<le> g" by linarith
      from parse_elements_mono [OF this E [OF array(4)]] parse_value_SucI(2) [OF array(1-3)]
      show ?thesis by simp
    next
      case (scalar c r0)
      from parse_value_SucI(3) [OF scalar(1-3)] scalar(4) show ?thesis by simp
    qed
    then show ?thesis by (simp only: g)
  qed
  moreover
  have "parse_elements (length cs - length r) acc cs = Some (v, r)"
    if "parse_elements (Suc f) acc cs = Some (v, r)" for acc cs v r
  proof -
    from parse_elements_shorter [OF that] obtain g where g: "length cs - length r = Suc g"
      by (cases "length cs - length r") auto
    from that have "parse_elements (Suc g) acc cs = Some (v, r)"
    proof (cases rule: parse_elements_SucE)
      case (more x r1 r')
      from parse_value_shorter [OF more(1)] skip_ws_Cons_shorter [OF more(2)]
        parse_elements_shorter [OF more(3)] g
      have a: "length cs - length r1 \<le> g" and b: "length r' - length r \<le> g" by linarith+
      from parse_elements_SucI(1) [OF parse_value_mono [OF a V [OF more(1)]] more(2)]
        parse_elements_mono [OF b E [OF more(3)]]
      show ?thesis by simp
    next
      case (last x r1)
      from parse_value_shorter [OF last(1)] skip_ws_Cons_shorter [OF last(2)] g
      have a: "length cs - length r1 \<le> g" by linarith
      from parse_elements_SucI(2) [OF parse_value_mono [OF a V [OF last(1)]] last(2)] last(3)
      show ?thesis by simp
    qed
    then show ?thesis by (simp only: g)
  qed
  moreover
  have "parse_members (length cs - length r) ps cs = Some (v, r)"
    if "parse_members (Suc f) ps cs = Some (v, r)" for ps cs v r
  proof -
    from parse_members_shorter [OF that] obtain g where g: "length cs - length r = Suc g"
      by (cases "length cs - length r") auto
    from that have "parse_members (Suc g) ps cs = Some (v, r)"
    proof (cases rule: parse_members_SucE)
      case (more r0 k r1 r2 x r3 r4)
      from skip_ws_Cons_shorter [OF more(1)] json_chars_shorter [OF more(2)]
        skip_ws_Cons_shorter [OF more(3)] parse_value_shorter [OF more(4)]
        skip_ws_Cons_shorter [OF more(5)] parse_members_shorter [OF more(6)] g
      have a: "length r2 - length r3 \<le> g" and b: "length r4 - length r \<le> g" by linarith+
      from parse_members_SucI(1) [OF more(1-3) parse_value_mono [OF a V [OF more(4)]] more(5)]
        parse_members_mono [OF b M [OF more(6)]]
      show ?thesis by simp
    next
      case (last r0 k r1 r2 x r3)
      from skip_ws_Cons_shorter [OF last(1)] json_chars_shorter [OF last(2)]
        skip_ws_Cons_shorter [OF last(3)] parse_value_shorter [OF last(4)]
        skip_ws_Cons_shorter [OF last(5)] g
      have a: "length r2 - length r3 \<le> g" by linarith
      from parse_members_SucI(2) [OF last(1-3) parse_value_mono [OF a V [OF last(4)]] last(5)]
        last(6)
      show ?thesis by simp
    qed
    then show ?thesis by (simp only: g)
  qed
  ultimately show ?case by blast
qed

text \<open>
  \<open>JSON_parse\<close> accepts a text exactly when the descent accepts it under some bound:
  \<open>None\<close> is a syntax error, never an exhausted bound.
\<close>

lemma JSON_parse_fuel:
  "JSON_parse text = Some v \<longleftrightarrow> (\<exists>f r. parse_value f text = Some (v, r) \<and> skip_ws r = [])"
proof
  assume "JSON_parse text = Some v"
  then obtain r where "parse_value (Suc (length text)) text = Some (v, r)" "skip_ws r = []"
    by (auto simp: JSON_parse_def simp del: parse_value.simps split: option.splits if_splits)
  then show "\<exists>f r. parse_value f text = Some (v, r) \<and> skip_ws r = []"
    by blast
next
  assume "\<exists>f r. parse_value f text = Some (v, r) \<and> skip_ws r = []"
  then obtain f r where p: "parse_value f text = Some (v, r)" and r: "skip_ws r = []"
    by blast
  from parse_needs_consumed [of f] p
  have "parse_value (length text - length r) text = Some (v, r)" by blast
  from parse_value_mono [OF _ this, of "Suc (length text)"]
  have "parse_value (Suc (length text)) text = Some (v, r)" by simp
  with r show "JSON_parse text = Some v" by (simp add: JSON_parse_def)
qed

subsection \<open>The phases\<close>

lemma buildPrompt_None_iff:
  "buildPromptWithUserInstructions basePrompt userPrompt = None \<longleftrightarrow> prompt_throws userPrompt"
  by (auto simp: buildPromptWithUserInstructions_def prompt_throws_def split: option.splits)

lemma reaches_call_iff:
  "reaches_call userPrompt it \<longleftrightarrow> \<not> prompt_throws userPrompt \<and> is_string (data it)"
  by (simp add: reaches_call_def buildPrompt_None_iff)

lemma those_Some_nth:
  "those xs = Some ys \<Longrightarrow> length ys = length xs \<and> (\<forall>i < length xs. xs ! i = Some (ys ! i))"
proof (induction xs arbitrary: ys)
  case Nil
  then show ?case by simp
next
  case (Cons x xs)
  then obtain y zs where x: "x = Some y" and zs: "those xs = Some zs" and ys: "ys = y # zs"
    by (auto split: option.splits)
  from Cons.IH [OF zs] show ?case
    by (auto simp: x ys nth_Cons split: nat.splits)
qed

lemma those_total:
  "(\<And>x. x \<in> set xs \<Longrightarrow> x \<noteq> None) \<Longrightarrow> \<exists>ys. those xs = Some ys"
  by (induction xs) (auto split: option.splits)

lemma length_analyze_all [simp]:
  "length (analyze_all userPrompt generateContent allItems) = length allItems"
  by (simp add: analyze_all_def)

lemma nth_analyze_all:
  "i < length allItems \<Longrightarrow>
   analyze_all userPrompt generateContent allItems ! i =
     analyze userPrompt (generateContent i) i (allItems ! i)"
  by (simp add: analyze_all_def nth_enumerate_eq)

lemma build_analysis_fields:
  assumes "build_analysis i it a = Some r"
  shows "index r = i" and "fileName r = item_fileName i it"
    and "\<exists>k. js_get a ''confidence'' = Some k \<and> clamped_confidence k = Some (confidence r)"
  using assms by (auto simp: build_analysis_def split: Option.bind_splits)

lemma analyze_index [simp]: "index (analyze userPrompt result i it) = i"
  by (auto simp: analyze_def error_analysis_def build_analysis_fields
      split: reply.splits option.splits)

lemma analyze_fileName [simp]:
  "fileName (analyze userPrompt result i it) = item_fileName i it"
  by (auto simp: analyze_def error_analysis_def build_analysis_fields
      split: reply.splits option.splits)

lemma result_for_fields:
  assumes "result_for categorization i a = Some r"
  shows "r_index r = index a" and "r_fileName r = fileName a" and "r_status r = ''success''"
    and "r_confidence r = confidence a"
    and "\<exists>cats e. categories_of categorization = Some cats
           \<and> find_entry (Object_entries cats) i = Some e
           \<and> r_category r = (case e of Some k \<Rightarrow> k | None \<Rightarrow> ''uncategorized'')"
  using assms by (auto simp: result_for_def split: Option.bind_splits)

lemma assemble_nth:
  assumes "assemble categorization as = Some rs"
  shows "length rs = length as"
    and "i < length as \<Longrightarrow> result_for categorization i (as ! i) = Some (rs ! i)"
proof -
  let ?xs = "map (\<lambda>(i, a). result_for categorization i a) (enumerate 0 as)"
  from assms have t: "those ?xs = Some rs" by (simp add: assemble_def)
  from those_Some_nth [OF t] show "length rs = length as" by simp
  assume i: "i < length as"
  with those_Some_nth [OF t] have "?xs ! i = Some (rs ! i)" by simp
  with i show "result_for categorization i (as ! i) = Some (rs ! i)"
    by (simp add: nth_enumerate_eq)
qed

lemma assemble_total:
  assumes "\<And>i. i < length as \<Longrightarrow> result_for categorization i (as ! i) \<noteq> None"
  shows "\<exists>rs. assemble categorization as = Some rs"
  unfolding assemble_def
proof (rule those_total)
  fix x assume "x \<in> set (map (\<lambda>(i, a). result_for categorization i a) (enumerate 0 as))"
  then obtain i where "i < length as" "x = result_for categorization i (as ! i)"
    by (auto simp: in_set_conv_nth nth_enumerate_eq)
  with assms show "x \<noteq> None" by simp
qed

lemma POST_valid:
  assumes "ingest req = Some (allItems, userPrompt)"
    and "0 < length allItems" and "length allItems \<le> 10"
  shows "POST generateContent categoryResult req =
     (let initialAnalyses = analyze_all userPrompt generateContent allItems;
          calls = length (filter (reaches_call userPrompt) allItems)
      in if prompt_throws userPrompt then
           \<lparr>response = internal_error, inference_calls = calls\<rparr>
         else
           (case assemble (synthesize categoryResult initialAnalyses) initialAnalyses of
              None \<Rightarrow> \<lparr>response = internal_error, inference_calls = calls + 1\<rparr>
            | Some results \<Rightarrow>
                (case categories_of (synthesize categoryResult initialAnalyses) of
                   None \<Rightarrow> \<lparr>response = internal_error, inference_calls = calls + 1\<rparr>
                 | Some cats \<Rightarrow>
                     \<lparr>response = Success results cats, inference_calls = calls + 1\<rparr>)))"
  using assms by (simp add: POST_def Let_def)

lemma POST_Success:
  assumes "response (POST generateContent categoryResult req) = Success rs cats"
  shows "\<exists>allItems userPrompt.
           ingest req = Some (allItems, userPrompt)
         \<and> 0 < length allItems \<and> length allItems \<le> 10
         \<and> \<not> prompt_throws userPrompt
         \<and> assemble (synthesize categoryResult (analyze_all userPrompt generateContent allItems))
               (analyze_all userPrompt generateContent allItems) = Some rs
         \<and> categories_of (synthesize categoryResult
               (analyze_all userPrompt generateContent allItems)) = Some cats"
  using assms
  by (auto simp: POST_def Let_def internal_error_def split: option.splits if_splits)

lemma POST_error_is_internal:
  assumes "ingest req = Some (allItems, userPrompt)"
    and "0 < length allItems" and "length allItems \<le> 10"
  shows "response (POST generateContent categoryResult req) = internal_error
       \<or> (\<exists>rs cats. response (POST generateContent categoryResult req) = Success rs cats)"
  by (simp add: POST_valid [OF assms] Let_def split: option.splits)

lemma find_entry_found:
  "find_entry es i = Some (Some k) \<Longrightarrow> \<exists>info. (k, info) \<in> set es \<and> lists_image info i = Some True"
  by (induction es i rule: find_entry.induct) (auto split: option.splits if_splits)

lemma find_entry_not_found:
  "find_entry es i = Some None \<Longrightarrow> (k, info) \<in> set es \<Longrightarrow> lists_image info i = Some False"
  by (induction es i rule: find_entry.induct) (auto split: option.splits if_splits)

lemma find_entry_total:
  "\<forall>(k, info) \<in> set es. lists_image info i \<noteq> None \<Longrightarrow> find_entry es i \<noteq> None"
  by (induction es) (auto split: option.splits)

lemma lists_image_category:
  assumes "is_category info"
  shows "lists_image info i = Some (JNum (of_nat i) \<in> set (member_indices info))"
proof (cases info)
  case (JObj ps)
  show ?thesis
  proof (cases "map_of ps ''images''")
    case None
    with JObj show ?thesis by (simp add: lists_image_def member_indices_def)
  next
    case (Some v)
    with assms JObj obtain xs where "v = JArr xs"
      by (cases v) (auto simp: is_category_def)
    with JObj Some show ?thesis by (simp add: lists_image_def member_indices_def)
  qed
qed (use assms in \<open>auto simp: is_category_def\<close>)

lemma find_entry_categories:
  "list_all (\<lambda>(k, info). is_category info) es \<Longrightarrow>
   \<exists>e. find_entry es i = Some e
     \<and> (case e of Some k \<Rightarrow> k | None \<Rightarrow> ''uncategorized'') = first_category_listing es i"
  by (induction es i rule: find_entry.induct) (auto simp: lists_image_category)

lemma set_insert_index: "set (insert_index k v ps) = insert (k, v) (set ps)"
  by (induction ps) (auto split: if_splits)

lemma set_obj_define: "set (obj_define ps k v) \<subseteq> insert (k, v) (set ps)"
  by (auto simp: obj_define_def set_insert_index split: if_splits)

lemma set_obj_assign: "set (obj_assign ps k v) \<subseteq> insert (k, v) (set ps)"
  using set_obj_define by (auto simp: obj_assign_def)

lemma foldl_obj_assign_values:
  "(k, v) \<in> set (foldl (\<lambda>acc t. obj_assign acc t (f t)) ps ts) \<Longrightarrow>
   (k, v) \<in> set ps \<or> v = f k"
proof (induction ts arbitrary: ps)
  case Nil
  then show ?case by simp
next
  case (Cons t ts)
  from Cons.IH [OF Cons.prems [simplified]] set_obj_assign [of ps t "f t"]
  show ?case by auto
qed

lemma theme_categories_values:
  "(k, v) \<in> set (theme_categories as) \<Longrightarrow> v = theme_category as k"
  using foldl_obj_assign_values [of k v "theme_category as" "[]"]
  by (auto simp: theme_categories_def)

lemma lists_image_theme_category:
  "lists_image (theme_category as t) i = Some (i \<in> set (imageIndices as t))"
  by (auto simp: lists_image_def theme_category_def)

lemma categories_of_fallback:
  "categories_of (fallback_categorization as) = Some (JObj (theme_categories as))"
  by (simp add: categories_of_def fallback_categorization_def or_else_def)

lemma result_for_fallback_total:
  "result_for (fallback_categorization as) i a \<noteq> None"
proof -
  have "find_entry (theme_categories as) i \<noteq> None"
    by (rule find_entry_total)
       (auto dest!: theme_categories_values simp: lists_image_theme_category)
  then show ?thesis
    by (auto simp: result_for_def categories_of_fallback)
qed

lemma synthesize_fallback:
  assumes "categoryResult = Throws
         \<or> (\<exists>t. categoryResult = Returns t \<and> JSON_parse (clean (response_text t)) = None)"
  shows "synthesize categoryResult as = fallback_categorization as"
  using assms by (auto simp: synthesize_def)

lemma POST_fallback_Success:
  assumes "ingest req = Some (allItems, userPrompt)"
    and "0 < length allItems" and "length allItems \<le> 10"
    and "\<not> prompt_throws userPrompt"
    and "categoryResult = Throws
         \<or> (\<exists>t. categoryResult = Returns t \<and> JSON_parse (clean (response_text t)) = None)"
  shows "\<exists>rs. response (POST generateContent categoryResult req) =
           Success rs (JObj (theme_categories (analyze_all userPrompt generateContent allItems)))"
proof -
  let ?as = "analyze_all userPrompt generateContent allItems"
  obtain rs where "assemble (fallback_categorization ?as) ?as = Some rs"
    using assemble_total [of ?as "fallback_categorization ?as"] result_for_fallback_total
    by blast
  then show ?thesis
    by (simp add: POST_valid [OF assms(1-3)] assms(4) synthesize_fallback [OF assms(5)]
        categories_of_fallback)
qed

lemma POST_categories_Success:
  assumes "ingest req = Some (allItems, userPrompt)"
    and "0 < length allItems" and "length allItems \<le> 10"
    and "\<not> prompt_throws userPrompt"
    and "categories_of (synthesize categoryResult
           (analyze_all userPrompt generateContent allItems)) = Some cats"
    and "list_all (\<lambda>(k, info). is_category info) (Object_entries cats)"
  shows "\<exists>rs. response (POST generateContent categoryResult req) = Success rs cats"
proof -
  let ?as = "analyze_all userPrompt generateContent allItems"
  let ?c = "synthesize categoryResult ?as"
  have "result_for ?c i (?as ! i) \<noteq> None" for i
    using find_entry_categories [OF assms(6), of i]
    by (auto simp: result_for_def assms(5))
  then obtain rs where "assemble ?c ?as = Some rs"
    using assemble_total by blast
  then show ?thesis
    by (simp add: POST_valid [OF assms(1-3)] assms(4,5))
qed

lemma Success_results:
  assumes "response (POST generateContent categoryResult req) = Success rs cats"
    and "ingest req = Some (allItems, userPrompt)"
  shows "length rs = length allItems"
    and "map r_index rs = [0..<length allItems]"
    and "map r_fileName rs = map (\<lambda>(i, it). item_fileName i it) (enumerate 0 allItems)"
proof -
  let ?as = "analyze_all userPrompt generateContent allItems"
  from POST_Success [OF assms(1)] assms(2)
  have asm: "assemble (synthesize categoryResult ?as) ?as = Some rs" by auto
  from assemble_nth(1) [OF asm] show len: "length rs = length allItems" by simp
  have nth: "r_index (rs ! i) = i \<and> r_fileName (rs ! i) = item_fileName i (allItems ! i)"
    if "i < length allItems" for i
  proof -
    from that have "result_for (synthesize categoryResult ?as) i (?as ! i) = Some (rs ! i)"
      using assemble_nth(2) [OF asm, of i] by simp
    from result_for_fields(1,2) [OF this] that show ?thesis
      by (simp add: nth_analyze_all)
  qed
  show "map r_index rs = [0..<length allItems]"
    by (rule nth_equalityI) (use len nth in auto)
  show "map r_fileName rs = map (\<lambda>(i, it). item_fileName i it) (enumerate 0 allItems)"
    by (rule nth_equalityI) (use len nth in \<open>auto simp: nth_enumerate_eq\<close>)
qed







lemma run_repeated_index:
  "POST every_call_throws repeated_index_reply two_images =
     \<lparr>response =
        Success
          [\<lparr>r_index = 0, r_content = ''error_image_1'', r_category = ''receipts'',
            r_extracted_text = ''Processing failed'', r_confidence = 0,
            r_status = ''success'', r_fileType = ''image'', r_fileName = ''image_1''\<rparr>,
           \<lparr>r_index = 1, r_content = ''error_image_2'', r_category = ''uncategorized'',
            r_extracted_text = ''Processing failed'', r_confidence = 0,
            r_status = ''success'', r_fileType = ''image'', r_fileName = ''image_2''\<rparr>]
          (JObj [(''receipts'',
                  JObj [(''description'', JStr ''Receipts''),
                        (''images'', JArr [JNum 0, JNum 0])])]),
      inference_calls = 3\<rparr>"
  by code_simp






lemma file_items_FileParts:
  "file_items (map FilePart fs) =
     Some (map (\<lambda>f. \<lparr>data = DataUrlOf f, name = Some (file_name f)\<rparr>) (filter is_image fs))"
  by (induction fs) auto

lemma is_image_examples:
  "\<not> is_image pdf_file" "is_image png_file" "is_image heic_file"
  by code_simp+

lemma distinct_insert_index:
  "k \<notin> fst ` set ps \<Longrightarrow> distinct (map fst ps) \<Longrightarrow> distinct (map fst (insert_index k v ps))"
  by (induction ps) (auto simp: set_insert_index)

lemma map_fst_overwrite:
  "map fst (map (\<lambda>(k', v'). if k' = k then (k', v) else (k', v')) ps) = map fst ps"
  by (induction ps) auto

lemma keys_obj_define: "fst ` set (obj_define ps k v) = insert k (fst ` set ps)"
proof (cases "k \<in> fst ` set ps")
  case True
  have "fst ` set (obj_define ps k v) = set (map fst (obj_define ps k v))" by simp
  also have "\<dots> = set (map fst ps)"
    using True by (simp only: obj_define_def if_True map_fst_overwrite)
  finally show ?thesis using True by auto
next
  case False
  then show ?thesis
    by (auto simp: obj_define_def set_insert_index)
qed

lemma distinct_obj_define:
  "distinct (map fst ps) \<Longrightarrow> distinct (map fst (obj_define ps k v))"
  by (auto simp: obj_define_def map_fst_overwrite distinct_insert_index
      simp del: map_map)

lemma foldl_obj_assign_keys:
  "fst ` set (foldl (\<lambda>acc t. obj_assign acc t (f t)) ps ts)
     = fst ` set ps \<union> (set ts - {''__proto__''})"
proof (induction ts arbitrary: ps)
  case Nil
  then show ?case by simp
next
  case (Cons t ts)
  show ?case
    by (simp only: foldl_Cons Cons.IH) (auto simp: obj_assign_def keys_obj_define)
qed

lemma foldl_obj_assign_distinct:
  "distinct (map fst ps) \<Longrightarrow>
   distinct (map fst (foldl (\<lambda>acc t. obj_assign acc t (f t)) ps ts))"
proof (induction ts arbitrary: ps)
  case Nil
  then show ?case by simp
next
  case (Cons t ts)
  have "distinct (map fst (obj_assign ps t (f t)))"
    using Cons.prems by (simp add: obj_assign_def distinct_obj_define)
  from Cons.IH [OF this] show ?case by simp
qed

lemma theme_categories_keys:
  "fst ` set (theme_categories as) = set (map main_theme as) - {''__proto__''}"
  by (simp add: theme_categories_def foldl_obj_assign_keys distinct_values_def)

lemma theme_categories_distinct: "distinct (map fst (theme_categories as))"
  by (simp add: theme_categories_def foldl_obj_assign_distinct)

lemma mem_imageIndices:
  "i \<in> set (imageIndices as t) \<longleftrightarrow> i < length as \<and> main_theme (as ! i) = t"
  by (force simp: imageIndices_def in_set_enumerate_eq image_iff)

lemma find_entry_theme:
  assumes "\<forall>(k, v) \<in> set es. v = theme_category as k"
    and "i < length as" and "main_theme (as ! i) \<in> fst ` set es"
  shows "find_entry es i = Some (Some (main_theme (as ! i)))"
  using assms
proof (induction es)
  case Nil
  then show ?case by simp
next
  case (Cons e es)
  obtain k v where e: "e = (k, v)" by (cases e)
  with Cons.prems have v: "v = theme_category as k" by simp
  show ?case
  proof (cases "main_theme (as ! i) = k")
    case True
    with Cons.prems(2) show ?thesis
      by (simp add: e v lists_image_theme_category mem_imageIndices)
  next
    case False
    with Cons.prems have "main_theme (as ! i) \<in> fst ` set es" by (auto simp: e)
    with Cons.IH Cons.prems False show ?thesis
      by (simp add: e v lists_image_theme_category mem_imageIndices)
  qed
qed

section \<open>Validation of the batch size\<close>

text \<open>
  C4. When ingestion yields no item or more than ten items, the handler answers with the
  validation error (status 400, "No images provided" for an empty batch and "Maximum 10
  images allowed" for an oversized one) and has made no inference call.
\<close>

theorem validation_fails_fast:
  assumes "ingest req = Some (allItems, userPrompt)"
    and "length allItems = 0 \<or> 10 < length allItems"
  shows "POST generateContent categoryResult req =
           \<lparr>response = ErrorResponse (if length allItems = 0 then ''No images provided''
                                       else ''Maximum 10 images allowed'') 400,
            inference_calls = 0\<rparr>"
  using assms by (auto simp: POST_def)

theorem validation_fails_fast_witness:
  "POST every_call_throws Throws eleven_images =
     \<lparr>response = ErrorResponse ''Maximum 10 images allowed'' 400, inference_calls = 0\<rparr>
   \<and> POST every_call_throws Throws no_images =
     \<lparr>response = ErrorResponse ''No images provided'' 400, inference_calls = 0\<rparr>"
proof -
  have a: "ingest eleven_images =
      Some (replicate 11 \<lparr>data = Given (JStr ''data:image/png;base64,AAAA''), name = None\<rparr>, None)"
    by (simp add: eleven_images_def body_items_def or_else_def)
  have b: "ingest no_images = Some ([], None)"
    by (simp add: no_images_def body_items_def or_else_def)
  show ?thesis
    using validation_fails_fast [OF a, of every_call_throws Throws]
      validation_fails_fast [OF b, of every_call_throws Throws]
    by simp
qed

section \<open>Categories and labels in the response\<close>

text \<open>
  C1, as the handler behaves. In a successful response every index of the batch has exactly
  one result, in order, and the category of result \<open>i\<close> is either a category of the
  returned map whose \<open>images\<close> the handler found to list \<open>i\<close>, or the reserved name
  \<open>uncategorized\<close> when no category of the map lists \<open>i\<close>. The categories map itself is
  the value of \<open>categorization.categories || {}\<close>, returned as the synthesizer or the
  grouping by theme produced it: missing or repeated indices are not repaired and no
  \<open>uncategorized\<close> entry is added.
\<close>

theorem every_item_one_label:
  assumes "response (POST generateContent categoryResult req) = Success rs cats"
  shows "\<exists>allItems userPrompt.
           ingest req = Some (allItems, userPrompt)
         \<and> length rs = length allItems
         \<and> categories_of (synthesize categoryResult
               (analyze_all userPrompt generateContent allItems)) = Some cats
         \<and> (\<forall>i < length rs.
               r_index (rs ! i) = i
             \<and> ((\<exists>info. (r_category (rs ! i), info) \<in> set (Object_entries cats)
                        \<and> lists_image info i = Some True)
                \<or> (r_category (rs ! i) = ''uncategorized''
                    \<and> (\<forall>(k, info) \<in> set (Object_entries cats).
                          lists_image info i = Some False))))"
proof -
  from POST_Success [OF assms] obtain allItems userPrompt
    where ing: "ingest req = Some (allItems, userPrompt)"
      and asm: "assemble (synthesize categoryResult
                   (analyze_all userPrompt generateContent allItems))
                 (analyze_all userPrompt generateContent allItems) = Some rs"
      and cats: "categories_of (synthesize categoryResult
                   (analyze_all userPrompt generateContent allItems)) = Some cats"
    by blast
  let ?as = "analyze_all userPrompt generateContent allItems"
  have len: "length rs = length allItems"
    using assemble_nth(1) [OF asm] by simp
  have "r_index (rs ! i) = i
      \<and> ((\<exists>info. (r_category (rs ! i), info) \<in> set (Object_entries cats)
                 \<and> lists_image info i = Some True)
         \<or> (r_category (rs ! i) = ''uncategorized''
             \<and> (\<forall>(k, info) \<in> set (Object_entries cats). lists_image info i = Some False)))"
    if i: "i < length rs" for i
  proof -
    from i len have r: "result_for (synthesize categoryResult ?as) i (?as ! i) = Some (rs ! i)"
      using assemble_nth(2) [OF asm, of i] by simp
    from result_for_fields(5) [OF r] cats obtain e
      where e: "find_entry (Object_entries cats) i = Some e"
        and c: "r_category (rs ! i) = (case e of Some k \<Rightarrow> k | None \<Rightarrow> ''uncategorized'')"
      by auto
    have idx: "r_index (rs ! i) = i"
      using result_for_fields(1) [OF r] i len by (simp add: nth_analyze_all)
    show ?thesis
    proof (cases e)
      case None
      with e c idx find_entry_not_found [of "Object_entries cats" i] show ?thesis
        by auto
    next
      case (Some k)
      with e c idx find_entry_found [of "Object_entries cats" i k] show ?thesis
        by auto
    qed
  qed
  with ing len cats show ?thesis by blast
qed

theorem every_item_one_label_witness:
  "\<exists>allItems userPrompt.
      ingest two_images = Some (allItems, userPrompt)
    \<and> length allItems = 2
    \<and> categories_of (synthesize repeated_index_reply
          (analyze_all userPrompt every_call_throws allItems)) =
        Some (JObj [(''receipts'',
                     JObj [(''description'', JStr ''Receipts''),
                           (''images'', JArr [JNum 0, JNum 0])])])"
proof -
  have "response (POST every_call_throws repeated_index_reply two_images) =
     Success
       [\<lparr>r_index = 0, r_content = ''error_image_1'', r_category = ''receipts'',
         r_extracted_text = ''Processing failed'', r_confidence = 0,
         r_status = ''success'', r_fileType = ''image'', r_fileName = ''image_1''\<rparr>,
        \<lparr>r_index = 1, r_content = ''error_image_2'', r_category = ''uncategorized'',
         r_extracted_text = ''Processing failed'', r_confidence = 0,
         r_status = ''success'', r_fileType = ''image'', r_fileName = ''image_2''\<rparr>]
       (JObj [(''receipts'',
               JObj [(''description'', JStr ''Receipts''),
                     (''images'', JArr [JNum 0, JNum 0])])])"
    by (simp add: run_repeated_index)
  from every_item_one_label [OF this] show ?thesis by auto
qed

text \<open>
  C1 as stated fails: with two items and a categorization that lists index 0 twice and
  index 1 nowhere, the response carries that map unchanged. Its member indices are not the
  index set of the batch, although result 1 is labelled \<open>uncategorized\<close>.
\<close>

theorem categories_map_not_repaired:
  "response (POST every_call_throws repeated_index_reply two_images) =
     Success
       [\<lparr>r_index = 0, r_content = ''error_image_1'', r_category = ''receipts'',
         r_extracted_text = ''Processing failed'', r_confidence = 0,
         r_status = ''success'', r_fileType = ''image'', r_fileName = ''image_1''\<rparr>,
        \<lparr>r_index = 1, r_content = ''error_image_2'', r_category = ''uncategorized'',
         r_extracted_text = ''Processing failed'', r_confidence = 0,
         r_status = ''success'', r_fileType = ''image'', r_fileName = ''image_2''\<rparr>]
       (JObj [(''receipts'',
               JObj [(''description'', JStr ''Receipts''),
                     (''images'', JArr [JNum 0, JNum 0])])])
   \<and> \<not> every_index_once
         (JObj [(''receipts'',
                 JObj [(''description'', JStr ''Receipts''),
                       (''images'', JArr [JNum 0, JNum 0])])]) 2"
proof -
  have "\<not> every_index_once
         (JObj [(''receipts'',
                 JObj [(''description'', JStr ''Receipts''),
                       (''images'', JArr [JNum 0, JNum 0])])]) 2"
    by code_simp
  then show ?thesis by (simp add: run_repeated_index)
qed

section \<open>One result for each item\<close>

text \<open>
  What the handler does guarantee for a batch of \<open>n\<close> items with \<open>1 \<le> n \<le> 10\<close>. A result
  list, when one is returned, has exactly \<open>n\<close> entries whose indices are \<open>0, ..., n - 1\<close> in
  this order, entry \<open>i\<close> carrying the file name of item \<open>i\<close>; the only other response is
  the generic internal error. The result list is returned whenever the user prompt can
  be printed and the categorization call throws, returns text that \<open>JSON.parse\<close> rejects,
  or returns a value whose categories map holds categories only.
\<close>

lemma results_in_item_order:
  assumes "ingest req = Some (allItems, userPrompt)"
    and "0 < length allItems" and "length allItems \<le> 10"
  shows "(response (POST generateContent categoryResult req) = internal_error
          \<or> (\<exists>rs cats. response (POST generateContent categoryResult req) = Success rs cats
                \<and> length rs = length allItems
                \<and> map r_index rs = [0..<length allItems]
                \<and> map r_fileName rs =
                    map (\<lambda>(i, it). item_fileName i it) (enumerate 0 allItems)))
       \<and> (\<not> prompt_throws userPrompt
            \<and> (categoryResult = Throws
                \<or> (\<exists>t. categoryResult = Returns t
                       \<and> JSON_parse (clean (response_text t)) = None))
          \<longrightarrow> response (POST generateContent categoryResult req) \<noteq> internal_error)
       \<and> (\<forall>cats. \<not> prompt_throws userPrompt
            \<and> categories_of (synthesize categoryResult
                  (analyze_all userPrompt generateContent allItems)) = Some cats
            \<and> list_all (\<lambda>(k, info). is_category info) (Object_entries cats)
          \<longrightarrow> (\<exists>rs. response (POST generateContent categoryResult req) = Success rs cats))"
proof (intro conjI impI allI)
  show "response (POST generateContent categoryResult req) = internal_error
        \<or> (\<exists>rs cats. response (POST generateContent categoryResult req) = Success rs cats
              \<and> length rs = length allItems
              \<and> map r_index rs = [0..<length allItems]
              \<and> map r_fileName rs =
                  map (\<lambda>(i, it). item_fileName i it) (enumerate 0 allItems))"
    using POST_error_is_internal [OF assms, of generateContent categoryResult]
      Success_results [OF _ assms(1)]
    by blast
next
  assume "\<not> prompt_throws userPrompt
            \<and> (categoryResult = Throws
                \<or> (\<exists>t. categoryResult = Returns t
                       \<and> JSON_parse (clean (response_text t)) = None))"
  then show "response (POST generateContent categoryResult req) \<noteq> internal_error"
    using POST_fallback_Success [OF assms, of categoryResult generateContent]
    by (auto simp: internal_error_def)
next
  fix cats
  assume "\<not> prompt_throws userPrompt
            \<and> categories_of (synthesize categoryResult
                  (analyze_all userPrompt generateContent allItems)) = Some cats
            \<and> list_all (\<lambda>(k, info). is_category info) (Object_entries cats)"
  then show "\<exists>rs. response (POST generateContent categoryResult req) = Success rs cats"
    using POST_categories_Success [OF assms] by blast
qed

lemma results_in_item_order_example:
  "response (POST every_call_throws Throws single_image) \<noteq> internal_error
   \<and> (\<exists>rs cats. response (POST every_call_throws Throws single_image) = Success rs cats
         \<and> length rs = 1 \<and> map r_index rs = [0] \<and> map r_fileName rs = [''image_1''])"
proof -
  have a: "ingest single_image =
      Some ([\<lparr>data = Given (JStr ''data:image/png;base64,AAAA''), name = None\<rparr>], None)"
    by (simp add: single_image_def body_items_def or_else_def)
  have b: "\<not> prompt_throws None" by (simp add: prompt_throws_def)
  have c: "show_nat (Suc 0) = ''1''" by code_simp
  from results_in_item_order [OF a, of every_call_throws Throws] b
  show ?thesis
    by (auto simp: internal_error_def enumerate_eq_zip item_fileName_def c)
qed

text \<open>
  C3. The claim promises \<open>n\<close> results for every valid batch. The handler breaks it when
  the categorization reply is the JSON text \<open>null\<close>: \<open>JSON.parse\<close> accepts the text, so the
  grouping by theme of the \<open>catch\<close> block is not used, the read
  \<open>categorization.categories\<close> of phase 3 throws, and the one item of the batch, analysed
  without error, gets the internal error and no result. When the same call throws, the
  same batch gets its one result.
\<close>

theorem null_categorization_drops_results:
  "ingest single_image =
     Some ([\<lparr>data = Given (JStr ''data:image/png;base64,AAAA''), name = None\<rparr>], None)
   \<and> POST every_call_fractional null_reply single_image =
       \<lparr>response = ErrorResponse ''Internal server error'' 500, inference_calls = 2\<rparr>
   \<and> POST every_call_fractional Throws single_image =
       \<lparr>response =
          Success
            [\<lparr>r_index = 0, r_content = ''invoice'', r_category = ''misc'',
              r_extracted_text = [], r_confidence = 171 / 2, r_status = ''success'',
              r_fileType = ''image'', r_fileName = ''image_1''\<rparr>]
            (JObj [(''misc'', JObj [(''description'', JStr ''Images related to misc''),
                                   (''images'', JArr [JNum 0])])]),
        inference_calls = 2\<rparr>"
  by code_simp

section \<open>The category of a record\<close>

text \<open>
  When every value of the categories map is a category (an object whose \<open>images\<close>, if
  present, is an array) and the records are in index order, the assembler gives every
  record the first category, in the order of \<open>Object.entries\<close>, whose member-index list
  contains the index of the record, and \<open>uncategorized\<close> when no list contains it; later
  categories listing the same index are ignored.
\<close>

lemma first_listing_on_categories:
  assumes "categories_of categorization = Some cats"
    and "list_all (\<lambda>(k, info). is_category info) (Object_entries cats)"
    and "map index as = [0..<length as]"
  shows "\<exists>rs. assemble categorization as = Some rs \<and> length rs = length as
           \<and> (\<forall>i < length as.
                 r_index (rs ! i) = index (as ! i)
               \<and> r_category (rs ! i) =
                   first_category_listing (Object_entries cats) (index (as ! i)))"
proof -
  have pos: "index (as ! i) = i" if "i < length as" for i
  proof -
    from that have "map index as ! i = index (as ! i)" by simp
    with assms(3) that show ?thesis by simp
  qed
  have total: "result_for categorization i (as ! i) \<noteq> None" for i
    using find_entry_categories [OF assms(2), of i]
    by (auto simp: result_for_def assms(1))
  then obtain rs where rs: "assemble categorization as = Some rs"
    using assemble_total by blast
  have "r_index (rs ! i) = index (as ! i)
      \<and> r_category (rs ! i) = first_category_listing (Object_entries cats) (index (as ! i))"
    if "i < length as" for i
  proof -
    from assemble_nth(2) [OF rs that]
    have r: "result_for categorization i (as ! i) = Some (rs ! i)" .
    from result_for_fields(5) [OF r] find_entry_categories [OF assms(2), of i]
    have "r_category (rs ! i) = first_category_listing (Object_entries cats) i"
      by (auto simp: assms(1))
    with result_for_fields(1) [OF r] pos [OF that] show ?thesis by simp
  qed
  with rs assemble_nth(1) [OF rs] show ?thesis by blast
qed

lemma first_listing_on_categories_example:
  "\<exists>rs. assemble overlapping_categorization three_records = Some rs \<and> length rs = 3
     \<and> r_category (rs ! 0) = ''docs'' \<and> r_category (rs ! 1) = ''docs''
     \<and> r_category (rs ! 2) = ''uncategorized''"
proof -
  let ?cats = "JObj [(''docs'', JObj [(''description'', JStr ''Documents''),
                                   (''images'', JArr [JNum 0, JNum 1])]),
                  (''photos'', JObj [(''description'', JStr ''Photos''),
                                     (''images'', JArr [JNum 1])])]"
  have a: "categories_of overlapping_categorization = Some ?cats"
    by (simp add: overlapping_categorization_def categories_of_def or_else_def)
  have b: "list_all (\<lambda>(k, info). is_category info) (Object_entries ?cats)"
    by (simp add: is_category_def)
  have c: "map index three_records = [0..<length three_records]"
    by (simp add: three_records_def error_analysis_def upt_rec)
  have l: "length three_records = 3" by (simp add: three_records_def)
  have lt: "0 < length three_records" "1 < length three_records" "2 < length three_records"
    by (simp_all add: l)
  have d: "first_category_listing (Object_entries ?cats) (index (three_records ! 0)) = ''docs''"
    "first_category_listing (Object_entries ?cats) (index (three_records ! 1)) = ''docs''"
    "first_category_listing (Object_entries ?cats) (index (three_records ! 2))
       = ''uncategorized''"
    by (simp_all add: member_indices_def three_records_def error_analysis_def)
  from first_listing_on_categories [OF a b c] obtain rs
    where rs: "assemble overlapping_categorization three_records = Some rs"
      and len: "length rs = length three_records"
      and cat: "\<And>i. i < length three_records \<Longrightarrow>
                  r_category (rs ! i) =
                    first_category_listing (Object_entries ?cats) (index (three_records ! i))"
    by blast
  from cat [OF lt(1)] have "r_category (rs ! 0) = ''docs''" unfolding d(1) .
  moreover from cat [OF lt(2)] have "r_category (rs ! 1) = ''docs''" unfolding d(2) .
  moreover from cat [OF lt(3)] have "r_category (rs ! 2) = ''uncategorized''" unfolding d(3) .
  ultimately show ?thesis using rs len l by simp
qed

text \<open>
  C8. The claim gives every record the first category whose member-index list contains
  its index, and \<open>uncategorized\<close> when no list contains it. The handler tests
  \<open>categoryInfo.images.includes(index)\<close> without checking that \<open>images\<close> is an array.
  For the reply whose only category has the string \<open>10\<close> as \<open>images\<close>, no member-index list
  contains 0 or 1, so both records of the batch are \<open>uncategorized\<close> by the claim; the
  handler converts the index to a string, finds it inside \<open>10\<close>, and assigns category \<open>a\<close>
  to both. When \<open>images\<close> is the number 7, \<open>includes\<close> is not a function and the handler
  answers with the internal error instead of assigning \<open>uncategorized\<close>.
\<close>

theorem string_images_matched_by_substring:
  "POST every_call_fractional string_images_reply two_images =
     \<lparr>response =
        Success
          [\<lparr>r_index = 0, r_content = ''invoice'', r_category = ''a'',
            r_extracted_text = [], r_confidence = 171 / 2, r_status = ''success'',
            r_fileType = ''image'', r_fileName = ''image_1''\<rparr>,
           \<lparr>r_index = 1, r_content = ''invoice'', r_category = ''a'',
            r_extracted_text = [], r_confidence = 171 / 2, r_status = ''success'',
            r_fileType = ''image'', r_fileName = ''image_2''\<rparr>]
          (JObj [(''a'', JObj [(''description'', JStr ''A''), (''images'', JStr ''10'')])]),
      inference_calls = 3\<rparr>
   \<and> first_category_listing
         [(''a'', JObj [(''description'', JStr ''A''), (''images'', JStr ''10'')])] 0
       = ''uncategorized''
   \<and> first_category_listing
         [(''a'', JObj [(''description'', JStr ''A''), (''images'', JStr ''10'')])] 1
       = ''uncategorized''
   \<and> POST every_call_fractional number_images_reply two_images =
       \<lparr>response = ErrorResponse ''Internal server error'' 500, inference_calls = 3\<rparr>"
  by code_simp

section \<open>The confidence of a record\<close>







section \<open>Ingestion of a multipart request\<close>

text \<open>
  C10. In a multipart request whose \<open>files\<close> entries are files, a file is kept exactly when
  its declared type starts with \<open>image/\<close> or its lower-cased name ends with \<open>.heic\<close>; the
  items are the kept files, in order, followed by the \<open>images\<close> entries, and the count
  validation sees only these. So a request without any kept file and without \<open>images\<close>
  entries gets "No images provided", and a request with any number of files succeeds
  (here: when the categorization call throws) as soon as between one and ten items
  remain.
\<close>

theorem non_image_files_dropped:
  "is_image f =
     (startsWith (file_type f) ''image/'' \<or> endsWith (toLowerCase (file_name f)) ''.heic'')
   \<and> ingest (Multipart (map FilePart fs) images) =
       Some (map (\<lambda>f. \<lparr>data = DataUrlOf f, name = Some (file_name f)\<rparr>) (filter is_image fs)
             @ map entry_item images, None)
   \<and> (filter is_image fs = [] \<and> images = [] \<longrightarrow>
        POST generateContent categoryResult (Multipart (map FilePart fs) images) =
          \<lparr>response = ErrorResponse ''No images provided'' 400, inference_calls = 0\<rparr>)
   \<and> (0 < length (filter is_image fs) + length images
        \<and> length (filter is_image fs) + length images \<le> 10 \<longrightarrow>
        (\<exists>rs cats.
           response (POST generateContent Throws (Multipart (map FilePart fs) images)) =
             Success rs cats
         \<and> length rs = length (filter is_image fs) + length images))"
proof -
  let ?req = "Multipart (map FilePart fs) images"
  let ?items = "map (\<lambda>f. \<lparr>data = DataUrlOf f, name = Some (file_name f)\<rparr>) (filter is_image fs)
             @ map entry_item images"
  have ing: "ingest ?req = Some (?items, None)"
    by (simp add: file_items_FileParts)
  have empty: "POST generateContent categoryResult ?req =
          \<lparr>response = ErrorResponse ''No images provided'' 400, inference_calls = 0\<rparr>"
    if "filter is_image fs = [] \<and> images = []"
    using that by (simp add: POST_def file_items_FileParts)
  have ok: "\<exists>rs cats. response (POST generateContent Throws ?req) = Success rs cats
         \<and> length rs = length (filter is_image fs) + length images"
    if n: "0 < length (filter is_image fs) + length images
        \<and> length (filter is_image fs) + length images \<le> 10"
  proof -
    from n have l: "0 < length ?items" "length ?items \<le> 10" by simp_all
    have p: "\<not> prompt_throws None" by (simp add: prompt_throws_def)
    from POST_fallback_Success [OF ing l p, of Throws generateContent]
    obtain rs cats where s: "response (POST generateContent Throws ?req) = Success rs cats"
      by blast
    from Success_results(1) [OF s ing] s show ?thesis by auto
  qed
  from ing empty ok show ?thesis by (simp add: is_image_def)
qed

theorem non_image_files_dropped_witness:
  "ingest (Multipart (map FilePart (replicate 10 pdf_file @ [png_file, heic_file])) []) =
     Some ([\<lparr>data = DataUrlOf png_file, name = Some ''shot.png''\<rparr>,
            \<lparr>data = DataUrlOf heic_file, name = Some ''IMG_1.HEIC''\<rparr>], None)
   \<and> (\<exists>rs cats.
         response (POST every_call_throws Throws
           (Multipart (map FilePart (replicate 10 pdf_file @ [png_file, heic_file])) [])) =
           Success rs cats
       \<and> length rs = 2)
   \<and> POST every_call_throws Throws (Multipart (map FilePart (replicate 11 pdf_file)) []) =
       \<lparr>response = ErrorResponse ''No images provided'' 400, inference_calls = 0\<rparr>"
proof -
  have a: "filter is_image (replicate 10 pdf_file @ [png_file, heic_file]) = [png_file, heic_file]"
    by (simp add: is_image_examples)
  have b: "filter is_image (replicate 11 pdf_file) = []"
    by (simp add: is_image_examples)
  have n: "file_name png_file = ''shot.png''" "file_name heic_file = ''IMG_1.HEIC''"
    by (simp_all add: png_file_def heic_file_def)
  from non_image_files_dropped
         [of png_file "replicate 10 pdf_file @ [png_file, heic_file]" "[]"
            every_call_throws Throws]
       non_image_files_dropped
         [of png_file "replicate 11 pdf_file" "[]" every_call_throws Throws]
  show ?thesis
    unfolding a b by (simp add: n numeral_2_eq_2)
qed

section \<open>Runs that leave the specification\<close>

text \<open>
  C2 on the code. The call for item 0 throws and the call for item 1 answers: result 0 has
  confidence 0 and the content of the error record, but its status is \<open>success\<close>, as the
  status of every result is; nothing in the response marks the failed item.
\<close>

theorem thrown_call_reported_as_success:
  "POST first_call_throws Throws two_images =
     \<lparr>response =
        Success
          [\<lparr>r_index = 0, r_content = ''error_image_1'', r_category = ''misc'',
            r_extracted_text = ''Processing failed'', r_confidence = 0,
            r_status = ''success'', r_fileType = ''image'', r_fileName = ''image_1''\<rparr>,
           \<lparr>r_index = 1, r_content = ''invoice'', r_category = ''misc'',
            r_extracted_text = [], r_confidence = 171 / 2,
            r_status = ''success'', r_fileType = ''image'', r_fileName = ''image_2''\<rparr>]
          (JObj [(''misc'',
                  JObj [(''description'', JStr ''Images related to misc''),
                        (''images'', JArr [JNum 0, JNum 1])])]),
      inference_calls = 3\<rparr>"
  by code_simp

text \<open>The status does not depend on the run: phase 3 writes \<open>success\<close> into every result.\<close>

lemma status_always_success:
  assumes "response (POST generateContent categoryResult req) = Success rs cats"
    and "r \<in> set rs"
  shows "r_status r = ''success''"
proof -
  from POST_Success [OF assms(1)] obtain allItems userPrompt
    where asm: "assemble (synthesize categoryResult
                   (analyze_all userPrompt generateContent allItems))
                 (analyze_all userPrompt generateContent allItems) = Some rs"
    by blast
  from assms(2) obtain i where i: "i < length rs" and r: "r = rs ! i"
    by (auto simp: in_set_conv_nth)
  from i assemble_nth(1) [OF asm] have "i < length allItems" by simp
  then have "result_for (synthesize categoryResult
                 (analyze_all userPrompt generateContent allItems)) i
               (analyze_all userPrompt generateContent allItems ! i) = Some (rs ! i)"
    using assemble_nth(2) [OF asm, of i] by simp
  from result_for_fields(3) [OF this] r show ?thesis by simp
qed

text \<open>
  C5 on the code. The categorization reply is a sentence followed by a JSON object. The
  per-item parser recovers that object from the same text through the brace match; phase 2
  parses the text once, fails, and groups by theme.
\<close>

theorem brace_object_not_recovered:
  "synthesize (Returns (Some prose_wrapped_text)) [error_analysis 0 data_url_item] =
     fallback_categorization [error_analysis 0 data_url_item]
   \<and> response (POST every_call_throws (Returns (Some prose_wrapped_text)) single_image) =
       Success
         [\<lparr>r_index = 0, r_content = ''error_image_1'', r_category = ''misc'',
           r_extracted_text = ''Processing failed'', r_confidence = 0,
           r_status = ''success'', r_fileType = ''image'', r_fileName = ''image_1''\<rparr>]
         (JObj [(''misc'',
                 JObj [(''description'', JStr ''Images related to misc''),
                       (''images'', JArr [JNum 0])])])
   \<and> parse_analysis 0 (clean (response_text (Some prose_wrapped_text))) =
       JObj [(''categories'',
              JObj [(''documents'',
                     JObj [(''description'', JStr ''Scanned papers''),
                           (''images'', JArr [JNum 0])])])]"
  by code_simp

text \<open>
  C6 on the code. The categorization call throws and the only record has the theme
  \<open>__proto__\<close>: the assignment \<open>acc[theme] = ...\<close> creates no own property, the
  categories map of the response is empty and the item is labelled \<open>uncategorized\<close>.
\<close>

theorem proto_theme_has_no_category:
  "POST every_call_proto Throws single_image =
     \<lparr>response =
        Success
          [\<lparr>r_index = 0, r_content = ''note'', r_category = ''uncategorized'',
            r_extracted_text = [], r_confidence = 90,
            r_status = ''success'', r_fileType = ''image'', r_fileName = ''image_1''\<rparr>]
          (JObj []),
      inference_calls = 2\<rparr>"
  by code_simp

text \<open>
  Apart from that theme the fallback does what the specification says: when the
  categorization call throws or its text does not parse, and no record has the theme
  \<open>__proto__\<close>, the response carries one category for each distinct theme, described as
  "Images related to" the theme and listing exactly the indices with that theme, and every
  result is labelled with the theme of its record.
\<close>

lemma theme_grouping_without_proto:
  assumes "ingest req = Some (allItems, userPrompt)"
    and "0 < length allItems" and "length allItems \<le> 10"
    and "\<not> prompt_throws userPrompt"
    and "categoryResult = Throws
         \<or> (\<exists>t. categoryResult = Returns t \<and> JSON_parse (clean (response_text t)) = None)"
    and "as = analyze_all userPrompt generateContent allItems"
    and "''__proto__'' \<notin> set (map main_theme as)"
  shows "\<exists>rs. response (POST generateContent categoryResult req) =
                Success rs (JObj (theme_categories as))
           \<and> length rs = length allItems
           \<and> (\<forall>i < length allItems. r_category (rs ! i) = main_theme (as ! i))
           \<and> theme_categories as \<noteq> []
           \<and> distinct (map fst (theme_categories as))
           \<and> set (map fst (theme_categories as)) = set (map main_theme as)
           \<and> (\<forall>(k, v) \<in> set (theme_categories as).
                 v = JObj [(''description'', JStr (''Images related to '' @ k)),
                           (''images'',
                            JArr (map (\<lambda>i. JNum (of_nat i))
                                   (filter (\<lambda>i. main_theme (as ! i) = k) [0..<length as])))])"
proof -
  from POST_fallback_Success [OF assms(1-5), of generateContent] assms(6)
  obtain rs where rs: "response (POST generateContent categoryResult req) =
                Success rs (JObj (theme_categories as))" by auto
  have len: "length rs = length allItems"
    using Success_results(1) [OF rs assms(1)] .
  have keys: "set (map fst (theme_categories as)) = set (map main_theme as)"
    using theme_categories_keys [of as] assms(7) by auto
  have lenas: "length as = length allItems" by (simp add: assms(6))
  from assms(2) lenas have "set (map main_theme as) \<noteq> {}" by auto
  with keys have ne: "theme_categories as \<noteq> []" by auto
  have cat: "r_category (rs ! i) = main_theme (as ! i)" if i: "i < length allItems" for i
  proof -
    from POST_Success [OF rs] assms(1,6)
    have asm: "assemble (synthesize categoryResult as) as = Some rs" by auto
    from i lenas have r: "result_for (synthesize categoryResult as) i (as ! i) = Some (rs ! i)"
      using assemble_nth(2) [OF asm, of i] by simp
    have c: "categories_of (synthesize categoryResult as) = Some (JObj (theme_categories as))"
      by (simp add: synthesize_fallback [OF assms(5)] categories_of_fallback)
    have "main_theme (as ! i) \<in> fst ` set (theme_categories as)"
      using keys i lenas by auto
    then have "find_entry (theme_categories as) i = Some (Some (main_theme (as ! i)))"
      using i lenas
      by (intro find_entry_theme) (auto dest: theme_categories_values)
    with result_for_fields(5) [OF r] c show ?thesis by auto
  qed
  have idx: "imageIndices as k = filter (\<lambda>i. main_theme (as ! i) = k) [0..<length as]" for k
  proof -
    have "imageIndices as k =
        map fst (filter (\<lambda>p. main_theme (snd p) = k) (zip [0..<length as] as))"
      by (simp add: imageIndices_def enumerate_eq_zip case_prod_unfold)
    also have "\<dots> = filter (\<lambda>i. main_theme (as ! i) = k) [0..<length as]"
    proof -
      have z: "zip [0..<length as] as = map (\<lambda>i. (i, as ! i)) [0..<length as]"
        by (rule nth_equalityI) auto
      show ?thesis by (simp add: z filter_map comp_def)
    qed
    finally show ?thesis .
  qed
  have vals: "\<forall>(k, v) \<in> set (theme_categories as).
                 v = JObj [(''description'', JStr (''Images related to '' @ k)),
                           (''images'',
                            JArr (map (\<lambda>i. JNum (of_nat i))
                                   (filter (\<lambda>i. main_theme (as ! i) = k) [0..<length as])))]"
    using theme_categories_values [of _ _ as]
    by (auto simp: theme_category_def idx)
  from rs len cat ne theme_categories_distinct keys vals show ?thesis by blast
qed

end
